theory Spec2Isabelle
  imports Main "HOL-Library.Word" "HOL-Library.Char_ord" "HOL-Library.AList"
begin

unbundle bit_operations_syntax

section \<open>Data model of \<open>parse_logs.h\<close>\<close>

text \<open>
  Instants (\<open>system_clock::time_point\<close>) and spans (\<open>system_clock::duration\<close>) are counts
  of nanoseconds in a signed 64-bit integer. The model keeps them as 64-bit words: \<open>+\<close>
  and \<open>-\<close> are the sum and the difference of the two's complement machine, which wrap
  around where the language leaves the overflow of a signed count undefined, and \<open>sint\<close>
  reads the signed count.
\<close>

type_synonym time_point = "64 word"
type_synonym duration = "64 word"

text \<open>The ticks of a second, and \<open>std::chrono::round<std::chrono::seconds>\<close>: the nearest
  whole second, the even one of two that are equally near.\<close>

definition ticks_per_second :: int where
  "ticks_per_second = 1000000000"

definition round_seconds :: "time_point \<Rightarrow> int" where
  "round_seconds t =
     (let t0 = sint t div ticks_per_second;
          diff0 = sint t - t0 * ticks_per_second;
          diff1 = (t0 + 1) * ticks_per_second - sint t
      in if diff0 = diff1 then (if odd t0 then t0 + 1 else t0)
         else if diff0 < diff1 then t0
         else t0 + 1)"

text \<open>\<open>play_session\<close>: pair of join time and play time; \<open>playtime_info\<close>: pair of the
  sessions and the total play time.\<close>

type_synonym play_session = "time_point \<times> duration"
type_synonym playtime_info = "play_session list \<times> duration"

record uuid_t =
  first :: "64 word"
  second :: "64 word"

record single_player_info =
  uuid :: "uuid_t option"
  join_time :: "time_point option"

text \<open>\<open>log_data_t\<close> is a \<open>std::map\<close> from identity to the pair of the observed names and
  the play time information.\<close>

type_synonym log_entry = "string list \<times> playtime_info"
type_synonym log_data_t = "uuid_t \<rightharpoonup> log_entry"

text \<open>
  \<open>player_info\<close> is a \<open>std::unordered_map\<close>. The model keeps its entries in an
  association list, updated in place, with a new key added at the end, so that the list
  has the keys in the order of their insertion. A loop over the container does not visit
  the entries in that order: the order comes from the hash values of the keys and from
  the buckets that the container has made for the keys it holds. The field \<open>hash_order\<close>
  stands for this part of the container: given the keys in the order of their insertion,
  it ranks each key, and a loop visits the entries by increasing rank. Nothing is assumed
  about the ranking, so every order of visiting the entries is the order of some value of
  the field.
\<close>

record parse_ctx_t =
  cur_filename :: string
  date_tp :: time_point
  line :: nat
  player_info :: "(string \<times> single_player_info) list"
  hash_order :: "string list \<Rightarrow> string \<Rightarrow> nat"
  server_stopped :: bool

record line_parse_results =
  read_valid_line :: bool
  player_join_left :: bool

text \<open>What the parser writes to \<open>std::cout\<close> and \<open>std::cerr\<close>, in the order written. The
  warning about a player who never left prints the leave time rounded to seconds.\<close>

datatype message =
    Warning_never_left string string int
  | Warning_uuid_not_found string string nat
  | Warning_joined_twice string string nat
  | Error_uuid_not_found string string nat
  | Error_join_time_not_found string string nat
  | Error_uuid_parsing_failed string string string nat
  | Warning_unexpected_file_name string
  | Error_decompressing string

text \<open>A default-constructed context; \<open>h\<close> is the order of its container.\<close>

definition new_ctx :: "(string list \<Rightarrow> string \<Rightarrow> nat) \<Rightarrow> parse_ctx_t" where
  "new_ctx h = \<lparr>cur_filename = [], date_tp = 0, line = 0, player_info = [], hash_order = h,
     server_stopped = False\<rparr>"

section \<open>The input stream of a line\<close>

text \<open>
  A \<open>std::istringstream\<close> as far as \<open>parse_line\<close> uses it: the characters not yet read
  and the two state bits the code tests (\<open>!ss\<close> is \<open>failbit\<close>, \<open>ss.eof()\<close> is
  \<open>eofbit\<close>, \<open>ss.good()\<close> is neither).
\<close>

record istream =
  rest :: string
  eofbit :: bool
  failbit :: bool

definition istream_of :: "string \<Rightarrow> istream" where
  "istream_of s = \<lparr>rest = s, eofbit = False, failbit = False\<rparr>"

definition good :: "istream \<Rightarrow> bool" where
  "good ss = (\<not> eofbit ss \<and> \<not> failbit ss)"

definition isspace :: "char \<Rightarrow> bool" where
  "isspace c = (c = CHR '' '' \<or> c = CHR 0x09 \<or> c = CHR 0x0A \<or> c = CHR 0x0B
     \<or> c = CHR 0x0C \<or> c = CHR 0x0D)"

definition is_digit :: "char \<Rightarrow> bool" where
  "is_digit c = (CHR ''0'' \<le> c \<and> c \<le> CHR ''9'')"

text \<open>The sentry of a formatted read: a stream that is not good fails; otherwise leading
  white space is skipped (unless \<open>noskipws\<close>), and reaching the end while skipping sets
  both bits.\<close>

definition sentry :: "bool \<Rightarrow> istream \<Rightarrow> istream \<times> bool" where
  "sentry noskipws ss =
     (if \<not> good ss then (ss\<lparr>failbit := True\<rparr>, False)
      else if noskipws then (ss, True)
      else let r = dropWhile isspace (rest ss)
           in if r = [] then (ss\<lparr>rest := [], eofbit := True, failbit := True\<rparr>, False)
              else (ss\<lparr>rest := r\<rparr>, True))"

text \<open>\<open>ss >> c\<close> for a \<open>char\<close>; \<open>c\<close> keeps its old value when the read fails.\<close>

definition read_char :: "bool \<Rightarrow> char \<Rightarrow> istream \<Rightarrow> char \<times> istream" where
  "read_char noskipws c ss =
     (case sentry noskipws ss of
        (ss1, ok) \<Rightarrow>
          if \<not> ok then (c, ss1)
          else (case rest ss1 of
                  [] \<Rightarrow> (c, ss1\<lparr>eofbit := True, failbit := True\<rparr>)
                | x # xs \<Rightarrow> (x, ss1\<lparr>rest := xs\<rparr>)))"

text \<open>\<open>ss >> str\<close> for a \<open>std::string\<close>: the string keeps its old value when the sentry
  fails; the word ends at white space, or at the end of the input, which sets \<open>eofbit\<close>.\<close>

definition read_string :: "string \<Rightarrow> istream \<Rightarrow> string \<times> istream" where
  "read_string str ss =
     (case sentry False ss of
        (ss1, ok) \<Rightarrow>
          if \<not> ok then (str, ss1)
          else let w = takeWhile (\<lambda>c. \<not> isspace c) (rest ss1);
                   r = dropWhile (\<lambda>c. \<not> isspace c) (rest ss1)
               in (w, ss1\<lparr>rest := r, eofbit := (r = []), failbit := (w = [])\<rparr>))"

text \<open>\<open>ss.ignore(max, delim)\<close>: discards up to and including the delimiter; the end of
  the input sets \<open>eofbit\<close>.\<close>

definition ignore_until :: "char \<Rightarrow> istream \<Rightarrow> istream" where
  "ignore_until delim ss =
     (case sentry True ss of
        (ss1, ok) \<Rightarrow>
          if \<not> ok then ss1
          else (case dropWhile (\<lambda>c. c \<noteq> delim) (rest ss1) of
                  [] \<Rightarrow> ss1\<lparr>rest := [], eofbit := True\<rparr>
                | _ # r \<Rightarrow> ss1\<lparr>rest := r\<rparr>))"

text \<open>
  \<open>std::chrono::from_stream(ss, "[%2H:%2M:%2S]", time_offset)\<close> is a call into the standard
  library. The model reads the literal characters of the format and, for each field, one
  or two decimal digits, checks the ranges of a time of day, and gives the offset from
  midnight in ticks; \<open>None\<close> is the failed read.
\<close>

definition digits_value :: "string \<Rightarrow> nat" where
  "digits_value ds = foldl (\<lambda>a c. 10 * a + (of_char c - of_char CHR ''0'')) 0 ds"

definition read_unsigned :: "nat \<Rightarrow> string \<Rightarrow> (nat \<times> string) option" where
  "read_unsigned n cs =
     (let ds = takeWhile is_digit (take n cs)
      in if ds = [] then None else Some (digits_value ds, drop (length ds) cs))"

definition expect :: "char \<Rightarrow> string \<Rightarrow> string option" where
  "expect c cs = (case cs of [] \<Rightarrow> None | x # xs \<Rightarrow> if x = c then Some xs else None)"

definition from_stream_hms :: "istream \<Rightarrow> (duration \<times> istream) option" where
  "from_stream_hms ss =
     (if \<not> good ss then None
      else case expect CHR ''['' (rest ss) of None \<Rightarrow> None | Some r1 \<Rightarrow>
           case read_unsigned 2 r1 of None \<Rightarrow> None | Some (h, r2) \<Rightarrow>
           case expect CHR '':'' r2 of None \<Rightarrow> None | Some r3 \<Rightarrow>
           case read_unsigned 2 r3 of None \<Rightarrow> None | Some (m, r4) \<Rightarrow>
           case expect CHR '':'' r4 of None \<Rightarrow> None | Some r5 \<Rightarrow>
           case read_unsigned 2 r5 of None \<Rightarrow> None | Some (s, r6) \<Rightarrow>
           case expect CHR '']'' r6 of None \<Rightarrow> None | Some r7 \<Rightarrow>
           if h \<le> 23 \<and> m \<le> 59 \<and> s \<le> 59
           then Some (of_nat (h * 3600 + m * 60 + s) * 1000000000, ss\<lparr>rest := r7\<rparr>)
           else None)"

section \<open>\<open>detail::parse_uuid\<close>\<close>

text \<open>The lambda \<open>hex_digit_to_uint64\<close>: the value of a hexadecimal digit, and \<open>-1\<close>
  converted to \<open>std::uint64_t\<close> for any other character.\<close>

definition hex_digit_to_uint64 :: "char \<Rightarrow> 64 word" where
  "hex_digit_to_uint64 c =
     (if CHR ''0'' \<le> c \<and> c \<le> CHR ''9'' then of_nat (of_char c - of_char CHR ''0'')
      else if CHR ''a'' \<le> c \<and> c \<le> CHR ''f'' then of_nat (of_char c - of_char CHR ''a'' + 10)
      else if CHR ''A'' \<le> c \<and> c \<le> CHR ''F'' then of_nat (of_char c - of_char CHR ''A'' + 10)
      else - 1)"

text \<open>One of the two loops over sixteen characters: digit \<open>i\<close> is shifted left by
  \<open>i * 4\<close> bits, the shifted value is compared with \<open>-1\<close>, and added to the half.\<close>

fun uuid_half :: "nat \<Rightarrow> string \<Rightarrow> 64 word \<Rightarrow> 64 word option" where
  "uuid_half i [] acc = Some acc"
| "uuid_half i (c # cs) acc =
     (let val = push_bit (i * 4) (hex_digit_to_uint64 c)
      in if val = - 1 then None else uuid_half (Suc i) cs (acc + val))"

text \<open>The argument is a span of exactly 36 characters; the caller checks the size.\<close>

definition parse_uuid :: "string \<Rightarrow> uuid_t option" where
  "parse_uuid str =
     (if str ! 8 \<noteq> CHR ''-'' \<or> str ! 13 \<noteq> CHR ''-'' \<or> str ! 18 \<noteq> CHR ''-'' \<or> str ! 23 \<noteq> CHR ''-''
      then None
      else let arr = take 8 str @ take 4 (drop 9 str) @ take 4 (drop 14 str)
                     @ take 4 (drop 19 str) @ take 12 (drop 24 str)
           in case uuid_half 0 (take 16 arr) 0 of
                None \<Rightarrow> None
              | Some f \<Rightarrow>
                  (case uuid_half 0 (drop 16 arr) 0 of
                     None \<Rightarrow> None
                   | Some s \<Rightarrow> Some \<lparr>first = f, second = s\<rparr>))"

section \<open>Closing sessions\<close>

text \<open>\<open>data[uuid]\<close> on the \<open>std::map\<close>: a missing key is first inserted with no names, no
  sessions and a zero total.\<close>

definition entry_at :: "log_data_t \<Rightarrow> uuid_t \<Rightarrow> log_entry" where
  "entry_at data u = (case data u of None \<Rightarrow> ([], ([], 0)) | Some e \<Rightarrow> e)"

text \<open>The statements that \<open>clear_all_players\<close> and the lambda \<open>player_left\<close> both run on
  the entry of an identity: add the name unless it is the last one already there, append
  the session \<open>(join_time, leave_time - join_time)\<close>, add the play time to the total.\<close>

definition add_session :: "log_data_t \<Rightarrow> uuid_t \<Rightarrow> string \<Rightarrow> time_point \<Rightarrow> time_point \<Rightarrow> log_data_t" where
  "add_session data u player_name joined leave_time =
     (case entry_at data u of
        (names, play_sessions, total_playtime) \<Rightarrow>
          let names' = (if names = [] \<or> last names \<noteq> player_name then names @ [player_name] else names);
              playtime = leave_time - joined
          in data(u \<mapsto> (names', play_sessions @ [(joined, playtime)], total_playtime + playtime)))"

text \<open>The positions of the entries of \<open>player_info\<close> in the order in which a loop over
  the container visits them.\<close>

definition iteration_order :: "parse_ctx_t \<Rightarrow> nat list" where
  "iteration_order ctx =
     sort_key (\<lambda>k. hash_order ctx (map fst (player_info ctx)) (fst (player_info ctx ! k)))
       [0..<length (player_info ctx)]"

text \<open>The loop of \<open>clear_all_players\<close> over the entries of \<open>player_info\<close>, given the
  positions to visit; the references \<open>cur_name\<close> and \<open>cur_info\<close> are to the entry at the
  position, which is changed where it is. \<open>clear_all_players\<close> gives it the positions of
  \<open>iteration_order\<close>, each position of the list once. The template parameter
  \<open>file_start_warn\<close> is the first argument.\<close>

fun clear_entries :: "bool \<Rightarrow> string \<Rightarrow> time_point \<Rightarrow> nat list \<Rightarrow> (string \<times> single_player_info) list
    \<Rightarrow> log_data_t \<Rightarrow> bool \<times> (string \<times> single_player_info) list \<times> log_data_t \<times> message list" where
  "clear_entries file_start_warn fname leave_time [] entries data = (False, entries, data, [])"
| "clear_entries file_start_warn fname leave_time (k # ks) entries data =
     (case entries ! k of
        (cur_name, cur_info) \<Rightarrow>
          (case (uuid cur_info, join_time cur_info) of
             (Some u, Some jt) \<Rightarrow>
               (case clear_entries file_start_warn fname leave_time ks
                       (entries[k := (cur_name, cur_info\<lparr>join_time := None\<rparr>)])
                       (add_session data u cur_name jt leave_time) of
                  (any, entries', data', out) \<Rightarrow>
                    (True, entries', data',
                     (if file_start_warn
                      then [Warning_never_left cur_name fname (round_seconds leave_time)] else []) @ out))
           | _ \<Rightarrow> clear_entries file_start_warn fname leave_time ks entries data))"

definition clear_all_players :: "bool \<Rightarrow> parse_ctx_t \<Rightarrow> log_data_t \<Rightarrow> time_point
    \<Rightarrow> bool \<times> parse_ctx_t \<times> log_data_t \<times> message list" where
  "clear_all_players file_start_warn ctx data leave_time =
     (case clear_entries file_start_warn (cur_filename ctx) leave_time (iteration_order ctx)
             (player_info ctx) data of
        (any, entries', data', out) \<Rightarrow> (any, ctx\<lparr>player_info := entries'\<rparr>, data', out))"

section \<open>\<open>parse_line\<close>\<close>

text \<open>\<open>ctx.player_info[name]\<close>: the entry of the name, a missing one being inserted with
  neither identity nor join time.\<close>

definition info_at :: "(string \<times> single_player_info) list \<Rightarrow> string \<Rightarrow> single_player_info" where
  "info_at entries player_name =
     (case map_of entries player_name of
        None \<Rightarrow> \<lparr>uuid = None, join_time = None\<rparr>
      | Some i \<Rightarrow> i)"

text \<open>The lambda \<open>player_joined\<close>.\<close>

definition player_joined :: "time_point \<Rightarrow> string \<Rightarrow> parse_ctx_t \<Rightarrow> parse_ctx_t \<times> message list" where
  "player_joined cur_time player_name ctx =
     (let info = info_at (player_info ctx) player_name;
          out1 = (if uuid info = None
                  then [Warning_uuid_not_found player_name (cur_filename ctx) (line ctx)] else []);
          out2 = (if join_time info \<noteq> None
                  then [Warning_joined_twice player_name (cur_filename ctx) (line ctx)] else [])
      in (ctx\<lparr>player_info := AList.update player_name (info\<lparr>join_time := Some cur_time\<rparr>) (player_info ctx)\<rparr>,
          out1 @ out2))"

text \<open>The lambda \<open>player_left\<close>; the first component is its return value.\<close>

definition player_left :: "time_point \<Rightarrow> string \<Rightarrow> parse_ctx_t \<Rightarrow> log_data_t
    \<Rightarrow> bool \<times> parse_ctx_t \<times> log_data_t \<times> message list" where
  "player_left cur_time player_name ctx data =
     (let info = info_at (player_info ctx) player_name;
          ctx1 = ctx\<lparr>player_info := AList.update player_name info (player_info ctx)\<rparr>
      in case uuid info of
           None \<Rightarrow> (False, ctx1, data, [Error_uuid_not_found player_name (cur_filename ctx) (line ctx)])
         | Some u \<Rightarrow>
             (case join_time info of
                None \<Rightarrow> (False, ctx1, data,
                         [Error_join_time_not_found player_name (cur_filename ctx) (line ctx)])
              | Some jt \<Rightarrow>
                  (True,
                   ctx\<lparr>player_info := AList.update player_name (info\<lparr>join_time := None\<rparr>) (player_info ctx)\<rparr>,
                   add_session data u player_name jt cur_time, [])))"

definition strip_cr :: "string \<Rightarrow> string" where
  "strip_cr s = rev (dropWhile (\<lambda>c. c = CHR 0x0D) (rev s))"

definition ret :: "bool \<Rightarrow> bool \<Rightarrow> parse_ctx_t \<Rightarrow> log_data_t \<Rightarrow> message list
    \<Rightarrow> line_parse_results \<times> parse_ctx_t \<times> log_data_t \<times> message list" where
  "ret valid changed ctx data out = (\<lparr>read_valid_line = valid, player_join_left = changed\<rparr>, ctx, data, out)"

text \<open>The part of \<open>parse_line\<close> after the optional flush: the stream is read word by word
  and matched against the messages. \<open>players_changed\<close> and \<open>out\<close> carry what the flush
  returned and wrote.\<close>

definition parse_message :: "time_point \<Rightarrow> istream \<Rightarrow> bool \<Rightarrow> parse_ctx_t \<Rightarrow> log_data_t \<Rightarrow> message list
    \<Rightarrow> line_parse_results \<times> parse_ctx_t \<times> log_data_t \<times> message list" where
  "parse_message cur_time ss players_changed ctx data out =
     (case read_string [] ss of (str1, ss1) \<Rightarrow>
      case read_string [] ss1 of (str2, ss2) \<Rightarrow>
      if failbit ss2 then ret True players_changed ctx data out
      else if eofbit ss2 \<and> str1 = ''Stopping'' \<and> str2 = ''server'' then
        (case clear_all_players False ctx data cur_time of
           (players_changed2, ctx', data', out') \<Rightarrow>
             ret True (players_changed \<or> players_changed2) (ctx'\<lparr>server_stopped := True\<rparr>) data' (out @ out'))
      else
      case read_string [] ss2 of (str3, ss3) \<Rightarrow>
      if failbit ss3 then ret True players_changed ctx data out
      else if server_stopped ctx then
        (if str1 = ''Starting'' \<and> str2 = ''minecraft'' \<and> str3 = ''server'' then
           (case read_string str1 ss3 of (str1', ss4) \<Rightarrow>
            case read_string str2 ss4 of (str2', ss5) \<Rightarrow>
            if eofbit ss5 \<and> str1' = ''version''
            then ret True players_changed (ctx\<lparr>server_stopped := False\<rparr>) data out
            else ret True players_changed ctx data out)
         else ret True players_changed ctx data out)
      else if eofbit ss3 \<and> str1 = ''Stopping'' \<and> str2 = ''the'' \<and> str3 = ''server'' then
        (case clear_all_players False ctx data cur_time of
           (players_changed2, ctx', data', out') \<Rightarrow>
             ret True (players_changed \<or> players_changed2) (ctx'\<lparr>server_stopped := True\<rparr>) data' (out @ out'))
      else
      case read_string [] ss3 of (str4, ss4) \<Rightarrow>
      if failbit ss4 then ret True players_changed ctx data out
      else if str1 = ''UUID'' \<and> str2 = ''of'' \<and> str3 = ''player'' then
        (case read_string str1 ss4 of (str1', ss5) \<Rightarrow>
         case read_string str2 ss5 of (str2', ss6) \<Rightarrow>
         if eofbit ss6 \<and> str1' = ''is'' \<and> length str2' = 36 then
           (case parse_uuid str2' of
              None \<Rightarrow> ret True players_changed ctx data
                        (out @ [Error_uuid_parsing_failed str2' str4 (cur_filename ctx) (line ctx)])
            | Some u \<Rightarrow>
                ret True players_changed
                  (ctx\<lparr>player_info :=
                     AList.update str4 ((info_at (player_info ctx) str4)\<lparr>uuid := Some u\<rparr>) (player_info ctx)\<rparr>)
                  data out)
         else ret True players_changed ctx data out)
      else if eofbit ss4 \<and> str3 = ''the'' \<and> str4 = ''game'' then
        (if str2 = ''joined'' then
           (case player_joined cur_time str1 ctx of
              (ctx', out') \<Rightarrow> ret True True ctx' data (out @ out'))
         else if str2 = ''left'' then
           (case player_left cur_time str1 ctx data of
              (players_changed2, ctx', data', out') \<Rightarrow>
                ret True (players_changed \<or> players_changed2) ctx' data' (out @ out'))
         else ret True players_changed ctx data out)
      else if str2 = ''(formerly'' \<and> str3 = ''known'' \<and> str4 = ''as'' then
        (case read_string str2 ss4 of (str2a, ss5) \<Rightarrow>
         case read_string str2a ss5 of (str2', ss6) \<Rightarrow>
         case read_string str3 ss6 of (str3', ss7) \<Rightarrow>
         case read_string str4 ss7 of (str4', ss8) \<Rightarrow>
         if eofbit ss8 \<and> str2' = ''joined'' \<and> str3' = ''the'' \<and> str4' = ''game'' then
           (case player_joined cur_time str1 ctx of
              (ctx', out') \<Rightarrow> ret True True ctx' data (out @ out'))
         else ret True players_changed ctx data out)
      else ret True players_changed ctx data out)"

text \<open>The head of a line: the time stamp, then \<open>[\<close>, anything up to \<open>]\<close>, and \<open>:\<close>
  directly after it. \<open>None\<close> is the return of \<open>{ false, false }\<close>. The variable \<open>c\<close> is
  not initialised in the source; a failed read leaves the stream not good, so its value
  is never decisive.\<close>

definition parse_head :: "string \<Rightarrow> (duration \<times> istream) option" where
  "parse_head text =
     (case from_stream_hms (istream_of text) of
        None \<Rightarrow> None
      | Some (time_offset, ss) \<Rightarrow>
          (case read_char False (CHR 0x00) ss of (c, ss1) \<Rightarrow>
           if c \<noteq> CHR ''['' \<or> \<not> good ss1 then None
           else case read_char True c (ignore_until CHR '']'' ss1) of (c', ss2) \<Rightarrow>
                if c' \<noteq> CHR '':'' \<or> \<not> good ss2 then None
                else Some (time_offset, ss2)))"

text \<open>The flush that \<open>clear_before\<close> asks for, with the warnings of
  \<open>clear_all_players<true>\<close>.\<close>

definition clear_before_flush :: "bool \<Rightarrow> parse_ctx_t \<Rightarrow> log_data_t \<Rightarrow> time_point
    \<Rightarrow> bool \<times> parse_ctx_t \<times> log_data_t \<times> message list" where
  "clear_before_flush clear_before ctx data cur_time =
     (if clear_before then clear_all_players True ctx data cur_time else (False, ctx, data, []))"

text \<open>\<open>parse_line\<close>; the template parameter \<open>strip_ending_cr\<close> is the first argument, and
  the result carries the context, the data and the output after the call.\<close>

definition parse_line :: "bool \<Rightarrow> string \<Rightarrow> parse_ctx_t \<Rightarrow> log_data_t \<Rightarrow> bool
    \<Rightarrow> line_parse_results \<times> parse_ctx_t \<times> log_data_t \<times> message list" where
  "parse_line strip_ending_cr text ctx data clear_before =
     (case parse_head (if strip_ending_cr then strip_cr text else text) of
        None \<Rightarrow> ret False False ctx data []
      | Some (time_offset, ss) \<Rightarrow>
          let cur_time = date_tp ctx + time_offset
          in case clear_before_flush clear_before ctx data cur_time of
               (players_changed, ctx1, data1, out1) \<Rightarrow>
                 parse_message cur_time ss players_changed ctx1 data1 out1)"

section \<open>\<open>parse_lines\<close>\<close>

text \<open>\<open>lines.find(c, pos)\<close>; \<open>None\<close> is \<open>npos\<close>.\<close>

definition find_char :: "string \<Rightarrow> char \<Rightarrow> nat \<Rightarrow> nat option" where
  "find_char s c pos =
     (if c \<in> set (drop pos s) then Some (pos + length (takeWhile (\<lambda>x. x \<noteq> c) (drop pos s)))
      else None)"

lemma takeWhile_before_member: "c \<in> set xs \<Longrightarrow> length (takeWhile (\<lambda>x. x \<noteq> c) xs) < length xs"
  by (induction xs) auto

lemma find_char_bounds: "find_char s c pos = Some n \<Longrightarrow> pos \<le> n \<and> n < length s"
proof -
  assume h: "find_char s c pos = Some n"
  then have mem: "c \<in> set (drop pos s)"
    by (auto simp: find_char_def split: if_splits)
  have n: "n = pos + length (takeWhile (\<lambda>x. x \<noteq> c) (drop pos s))"
    using h mem by (simp add: find_char_def)
  have "length (takeWhile (\<lambda>x. x \<noteq> c) (drop pos s)) < length (drop pos s)"
    using mem by (rule takeWhile_before_member)
  then show ?thesis using n by auto
qed

function parse_lines_loop :: "string \<Rightarrow> nat \<Rightarrow> bool \<Rightarrow> parse_ctx_t \<Rightarrow> log_data_t \<Rightarrow> message list
    \<Rightarrow> bool \<times> parse_ctx_t \<times> log_data_t \<times> message list" where
  "parse_lines_loop lines pos players_changed ctx data out =
     (case find_char lines CHR 0x0A pos of
        None \<Rightarrow>
          (case parse_line True (drop pos lines) ctx data False of
             (res, ctx', data', out') \<Rightarrow>
               (players_changed \<or> player_join_left res, ctx', data', out @ out'))
      | Some new_pos \<Rightarrow>
          (case parse_line True (take (new_pos - pos) (drop pos lines)) ctx data False of
             (res, ctx', data', out') \<Rightarrow>
               parse_lines_loop lines (new_pos + 1) (players_changed \<or> player_join_left res)
                 ctx' data' (out @ out')))"
  by pat_completeness auto
termination
  by (relation "measure (\<lambda>(lines, pos, _). length lines - pos)")
     (auto dest: find_char_bounds)

declare parse_lines_loop.simps [simp del]

definition parse_lines :: "string \<Rightarrow> parse_ctx_t \<Rightarrow> log_data_t
    \<Rightarrow> bool \<times> parse_ctx_t \<times> log_data_t \<times> message list" where
  "parse_lines lines ctx data = parse_lines_loop lines 0 False ctx data []"

section \<open>Reading the files of a backfill\<close>

text \<open>
  A path of \<open>read_ctx.paths\<close> together with what the file system holds for it: the file
  name, whether it is a \<open>.gz\<close>, midnight of its modification date in the target zone
  (\<open>file_modification_date\<close>), and its text. For a \<open>.gz\<close> the text is the output of
  \<open>libdeflate_gzip_decompress\<close>, \<open>None\<close> when that does not return success; for a plain
  file \<open>None\<close> is a file that can not be opened.
\<close>

record log_file =
  file_name :: string
  is_gz :: bool
  modification_date :: time_point
  file_text :: "string option"

record file_read_ctx_t =
  fin :: "istream option"
  paths :: "log_file list"
  path_ind :: nat
  rd_date_tp :: time_point
  rd_line :: nat

text \<open>
  \<open>std::chrono::from_stream(path_ss, "%4Y-%2m-%2d", local_tp)\<close> followed by the conversion
  to system time in the zone UTC, both calls into the standard library: year, month and
  day are read as decimal fields of at most 4, 2 and 2 digits, the date has to exist, and
  the result is midnight of that date, counted in ticks from 1970-01-01 (86400 seconds
  for each day, converted to the ticks of \<open>system_clock\<close>).
\<close>

definition is_leap :: "nat \<Rightarrow> bool" where
  "is_leap y = (y mod 4 = 0 \<and> (y mod 100 \<noteq> 0 \<or> y mod 400 = 0))"

definition last_day_of_month :: "nat \<Rightarrow> nat \<Rightarrow> nat" where
  "last_day_of_month y m =
     (if m = 2 then (if is_leap y then 29 else 28)
      else if m = 4 \<or> m = 6 \<or> m = 9 \<or> m = 11 then 30 else 31)"

definition days_from_civil :: "nat \<Rightarrow> nat \<Rightarrow> nat \<Rightarrow> int" where
  "days_from_civil y m d =
     (let y' = int y - (if m \<le> 2 then 1 else 0);
          era = y' div 400;
          yoe = y' - era * 400;
          doy = (153 * (if m > 2 then int m - 3 else int m + 9) + 2) div 5 + int d - 1;
          doe = yoe * 365 + yoe div 4 - yoe div 100 + doy
      in era * 146097 + doe - 719468)"

definition date_from_file_name :: "string \<Rightarrow> time_point option" where
  "date_from_file_name name =
     (case read_unsigned 4 name of None \<Rightarrow> None | Some (y, r1) \<Rightarrow>
      case expect CHR ''-'' r1 of None \<Rightarrow> None | Some r2 \<Rightarrow>
      case read_unsigned 2 r2 of None \<Rightarrow> None | Some (m, r3) \<Rightarrow>
      case expect CHR ''-'' r3 of None \<Rightarrow> None | Some r4 \<Rightarrow>
      case read_unsigned 2 r4 of None \<Rightarrow> None | Some (d, r5) \<Rightarrow>
      if 1 \<le> m \<and> m \<le> 12 \<and> 1 \<le> d \<and> d \<le> last_day_of_month y m
      then Some (word_of_int (days_from_civil y m d * 86400) * 1000000000)
      else None)"

text \<open>\<open>std::getline(*(ctx.fin), s)\<close> into a fresh string.\<close>

definition getline :: "istream \<Rightarrow> string \<times> istream" where
  "getline ss =
     (if \<not> good ss then ([], ss\<lparr>failbit := True\<rparr>)
      else case rest ss of
             [] \<Rightarrow> ([], ss\<lparr>eofbit := True, failbit := True\<rparr>)
           | _ # _ \<Rightarrow>
               (case dropWhile (\<lambda>c. c \<noteq> CHR 0x0A) (rest ss) of
                  [] \<Rightarrow> (rest ss, ss\<lparr>rest := [], eofbit := True\<rparr>)
                | _ # r \<Rightarrow> (takeWhile (\<lambda>c. c \<noteq> CHR 0x0A) (rest ss), ss\<lparr>rest := r\<rparr>)))"

definition open_file :: "log_file \<Rightarrow> istream" where
  "open_file f =
     (case file_text f of
        None \<Rightarrow> \<lparr>rest = [], eofbit = False, failbit = True\<rparr>
      | Some text \<Rightarrow> istream_of text)"

definition stream_size :: "istream option \<Rightarrow> nat" where
  "stream_size s =
     (case s of
        None \<Rightarrow> 0
      | Some ss \<Rightarrow> if failbit ss then 0 else if eofbit ss then 1 else 2 + length (rest ss))"

lemma getline_smaller:
  "\<not> failbit ss \<Longrightarrow> stream_size (Some (snd (getline ss))) < stream_size (Some ss)"
proof (cases "good ss")
  case False
  assume "\<not> failbit ss"
  with False show ?thesis by (simp add: getline_def stream_size_def good_def)
next
  case True
  show ?thesis
  proof (cases "rest ss")
    case Nil
    with True show ?thesis by (simp add: getline_def stream_size_def good_def)
  next
    case (Cons x xs)
    show ?thesis
    proof (cases "dropWhile (\<lambda>c. c \<noteq> CHR 0x0A) (rest ss)")
      case Nil
      with True Cons show ?thesis by (simp add: getline_def stream_size_def good_def)
    next
      case (Cons y r)
      have "length (dropWhile (\<lambda>c. c \<noteq> CHR 0x0A) (rest ss)) \<le> length (rest ss)"
        by (rule length_dropWhile_le)
      with Cons have "length r < length (rest ss)" by simp
      with True Cons \<open>rest ss = x # xs\<close> show ?thesis
        by (simp add: getline_def stream_size_def good_def)
    qed
  qed
qed

lemma getline_smaller':
  "getline ss = (s, ss') \<Longrightarrow> \<not> failbit ss \<Longrightarrow> stream_size (Some ss') < stream_size (Some ss)"
  using getline_smaller [of ss] by simp

text \<open>
  \<open>detail::get_next_line\<close>; the template parameter \<open>skip_latest_log\<close> is the first
  argument. The result is the returned pair, the read context after the call and what was
  written. \<open>path_ind\<close> starts at 0 and grows by one only while it is below the number of
  paths, so the test for having used all paths is written with \<open>\<ge>\<close>.
\<close>

function get_next_line :: "bool \<Rightarrow> file_read_ctx_t \<Rightarrow> (string \<times> bool) \<times> file_read_ctx_t \<times> message list" where
  "get_next_line skip_latest_log ctx =
     (if fin ctx = None \<or> failbit (the (fin ctx)) then
        if path_ind ctx \<ge> length (paths ctx) then (([], False), ctx, [])
        else
          let f = paths ctx ! path_ind ctx;
              ctx1 = ctx\<lparr>fin := None, rd_line := 0, path_ind := path_ind ctx + 1\<rparr>
          in case (if \<not> skip_latest_log \<and> file_name f = ''latest.log''
                   then Some (modification_date f) else date_from_file_name (file_name f)) of
               None \<Rightarrow>
                 (case get_next_line skip_latest_log ctx1 of
                    (r, ctx', out) \<Rightarrow> (r, ctx', Warning_unexpected_file_name (file_name f) # out))
             | Some d \<Rightarrow>
                 if is_gz f \<and> file_text f = None then
                   (case get_next_line skip_latest_log (ctx1\<lparr>rd_date_tp := d\<rparr>) of
                      (r, ctx', out) \<Rightarrow> (r, ctx', Error_decompressing (file_name f) # out))
                 else
                   (case get_next_line skip_latest_log (ctx1\<lparr>rd_date_tp := d, fin := Some (open_file f)\<rparr>) of
                      (r, ctx', out) \<Rightarrow> ((fst r, True), ctx', out))
      else
        case getline (the (fin ctx)) of
          (s, ss') \<Rightarrow>
            if s = [] then get_next_line skip_latest_log (ctx\<lparr>fin := Some ss', rd_line := rd_line ctx + 1\<rparr>)
            else ((s, False), ctx\<lparr>fin := Some ss', rd_line := rd_line ctx + 1\<rparr>, []))"
  by pat_completeness auto
termination
proof (relation "measures [\<lambda>(_, ctx). length (paths ctx) - path_ind ctx, \<lambda>(_, ctx). stream_size (fin ctx)]",
    goal_cases)
  case 1
  show ?case by simp
next
  case (2 skip_latest_log ctx f ctx1)
  then show ?case by auto
next
  case (3 skip_latest_log ctx f ctx1 d)
  then show ?case by auto
next
  case (4 skip_latest_log ctx f ctx1 d)
  then show ?case by auto
next
  case 5
  then show ?case
    by (auto dest!: getline_smaller' [OF sym] simp: stream_size_def [of None])
qed

declare get_next_line.simps [simp del]

text \<open>Each call of \<open>get_next_line\<close> that returns a line uses up a path or part of the open
  stream; the loop of \<open>parse_logs\<close> ends for this reason.\<close>

definition rank :: "file_read_ctx_t \<Rightarrow> nat \<times> nat" where
  "rank ctx = (length (paths ctx) - path_ind ctx, stream_size (fin ctx))"

definition rank_less :: "(file_read_ctx_t \<times> file_read_ctx_t) set" where
  "rank_less = inv_image (less_than <*lex*> less_than) rank"

lemma wf_rank_less: "wf rank_less"
  unfolding rank_less_def by (intro wf_inv_image wf_lex_prod wf_less_than)

lemma trans_rank_less: "trans rank_less"
  unfolding rank_less_def
  by (intro trans_inv_image trans_lex_prod) simp_all

lemma rank_less_trans: "(a, b) \<in> rank_less \<Longrightarrow> (b, c) \<in> rank_less \<Longrightarrow> (a, c) \<in> rank_less"
  using trans_rank_less by (rule transD)

lemma get_next_line_rank:
  "get_next_line skip ctx = ((s, b), ctx', out) \<Longrightarrow> s \<noteq> [] \<Longrightarrow> (ctx', ctx) \<in> rank_less"
proof (induction skip ctx arbitrary: s b ctx' out rule: get_next_line.induct)
  case (1 skip ctx)
  let ?f = "paths ctx ! path_ind ctx"
  let ?ctx1 = "ctx\<lparr>fin := None, rd_line := 0, path_ind := path_ind ctx + 1\<rparr>"
  let ?date = "if \<not> skip \<and> file_name ?f = ''latest.log'' then Some (modification_date ?f)
               else date_from_file_name (file_name ?f)"
  show ?case
  proof (cases "fin ctx = None \<or> failbit (the (fin ctx))")
    case True
    note closed = True
    show ?thesis
    proof (cases "path_ind ctx \<ge> length (paths ctx)")
      case True
      have "get_next_line skip ctx = (([], False), ctx, [])"
        using closed True by (subst get_next_line.simps) simp
      with "1.prems" show ?thesis by simp
    next
      case False
      have step: "(c, ctx) \<in> rank_less" if "paths c = paths ctx" "path_ind c = path_ind ctx + 1" for c
        using False that by (auto simp: rank_less_def rank_def)
      show ?thesis
      proof (cases ?date)
        case None
        obtain r c2 o2 where g: "get_next_line skip ?ctx1 = (r, c2, o2)" by (rule prod_cases3)
        have "get_next_line skip ctx = (r, c2, Warning_unexpected_file_name (file_name ?f) # o2)"
          using closed False None g
          by (subst get_next_line.simps) (simp add: Let_def)
        with "1.prems"(1) have "r = (s, b)" "c2 = ctx'" by simp_all
        with g have g': "get_next_line skip ?ctx1 = ((s, b), ctx', o2)" by simp
        have "(ctx', ?ctx1) \<in> rank_less"
          using "1.IH"(1) [OF closed False refl refl None g' "1.prems"(2)] .
        moreover have "(?ctx1, ctx) \<in> rank_less" by (rule step) simp_all
        ultimately show ?thesis by (rule rank_less_trans)
      next
        case (Some d)
        show ?thesis
        proof (cases "is_gz ?f \<and> file_text ?f = None")
          case True
          obtain r c2 o2 where g: "get_next_line skip (?ctx1\<lparr>rd_date_tp := d\<rparr>) = (r, c2, o2)" by (rule prod_cases3)
          have "get_next_line skip ctx = (r, c2, Error_decompressing (file_name ?f) # o2)"
            using closed False Some True g
            by (subst get_next_line.simps) (simp add: Let_def)
          with "1.prems"(1) have "r = (s, b)" "c2 = ctx'" by simp_all
          with g have g': "get_next_line skip (?ctx1\<lparr>rd_date_tp := d\<rparr>) = ((s, b), ctx', o2)" by simp
          have "(ctx', ?ctx1\<lparr>rd_date_tp := d\<rparr>) \<in> rank_less"
            using "1.IH"(2) [OF closed False refl refl Some True g' "1.prems"(2)] .
          moreover have "(?ctx1\<lparr>rd_date_tp := d\<rparr>, ctx) \<in> rank_less" by (rule step) simp_all
          ultimately show ?thesis by (rule rank_less_trans)
        next
          case nogz: False
          obtain r c2 o2 where g: "get_next_line skip (?ctx1\<lparr>rd_date_tp := d, fin := Some (open_file ?f)\<rparr>) = (r, c2, o2)"
            by (rule prod_cases3)
          have "get_next_line skip ctx = ((fst r, True), c2, o2)"
            using closed False Some nogz g
            by (subst get_next_line.simps) (auto simp: Let_def)
          with "1.prems"(1) have "fst r = s" "c2 = ctx'" by simp_all
          with g have g': "get_next_line skip (?ctx1\<lparr>rd_date_tp := d, fin := Some (open_file ?f)\<rparr>) = ((s, snd r), ctx', o2)"
            by (cases r) simp
          have "(ctx', ?ctx1\<lparr>rd_date_tp := d, fin := Some (open_file ?f)\<rparr>) \<in> rank_less"
            using "1.IH"(3) [OF closed False refl refl Some nogz g' "1.prems"(2)] .
          moreover have "(?ctx1\<lparr>rd_date_tp := d, fin := Some (open_file ?f)\<rparr>, ctx) \<in> rank_less"
            by (rule step) simp_all
          ultimately show ?thesis by (rule rank_less_trans)
        qed
      qed
    qed
  next
    case False
    note opened = False
    obtain l ss' where gl: "getline (the (fin ctx)) = (l, ss')" by (cases "getline (the (fin ctx))")
    from opened have some: "fin ctx = Some (the (fin ctx))" and nf: "\<not> failbit (the (fin ctx))" by auto
    have less: "stream_size (Some ss') < stream_size (fin ctx)"
      using getline_smaller' [OF gl nf] some by simp
    let ?ctx2 = "ctx\<lparr>fin := Some ss', rd_line := rd_line ctx + 1\<rparr>"
    have c2: "(?ctx2, ctx) \<in> rank_less"
      using less by (simp add: rank_less_def rank_def)
    show ?thesis
    proof (cases "l = []")
      case True
      have "get_next_line skip ctx = get_next_line skip ?ctx2"
        using opened gl True by (subst get_next_line.simps) auto
      with "1.prems"(1) have g: "get_next_line skip ?ctx2 = ((s, b), ctx', out)" by simp
      have "(ctx', ?ctx2) \<in> rank_less"
        using "1.IH"(4) [OF opened gl [symmetric] True g "1.prems"(2)] .
      then show ?thesis using c2 by (rule rank_less_trans)
    next
      case False
      have "get_next_line skip ctx = ((l, False), ?ctx2, [])"
        using opened gl False by (subst get_next_line.simps) auto
      with "1.prems"(1) have "ctx' = ?ctx2" by simp
      with c2 show ?thesis by simp
    qed
  qed
qed

section \<open>The loop of \<open>parse_logs\<close>\<close>

text \<open>
  The local variables of \<open>parse_logs\<close> that its loop changes, together with what has been
  written and the arguments of the calls of \<open>read_file_cb\<close>, in order. The model starts
  from the list of paths as it is after line 609 of the source (listed, filtered, sorted,
  duplicates removed).
\<close>

record loop_vars =
  loop_ctx :: parse_ctx_t
  loop_info :: log_data_t
  loop_clear_before :: bool
  loop_last_tp :: time_point
  loop_out :: "message list"
  loop_read_files :: "log_file list"

text \<open>One pass through the body of the loop for a line \<open>s\<close> that is not empty;
  \<open>read_ctx\<close> is the read context after \<open>get_next_line\<close>.\<close>

definition parse_logs_body :: "string \<Rightarrow> bool \<Rightarrow> file_read_ctx_t \<Rightarrow> loop_vars \<Rightarrow> loop_vars" where
  "parse_logs_body s file_is_new read_ctx v =
     (let ctx1 = (if file_is_new
                  then (loop_ctx v)\<lparr>cur_filename := file_name (paths read_ctx ! (path_ind read_ctx - 1)),
                                     date_tp := rd_date_tp read_ctx\<rparr>
                  else loop_ctx v);
          clear_before = (if file_is_new \<and> date_tp ctx1 = loop_last_tp v then True
                          else loop_clear_before v);
          last_tp = (if file_is_new then date_tp ctx1 else loop_last_tp v);
          ctx2 = ctx1\<lparr>line := rd_line read_ctx\<rparr>
      in case parse_line True s ctx2 (loop_info v) clear_before of
           (res, ctx3, info, out) \<Rightarrow>
             \<lparr>loop_ctx = ctx3, loop_info = info,
              loop_clear_before = (if read_valid_line res then False else clear_before),
              loop_last_tp = last_tp,
              loop_out = loop_out v @ out,
              loop_read_files = loop_read_files v @
                (if file_is_new \<and> path_ind read_ctx > 1
                 then [paths read_ctx ! (path_ind read_ctx - 2)] else [])\<rparr>)"

function parse_logs_loop :: "bool \<Rightarrow> file_read_ctx_t \<Rightarrow> loop_vars \<Rightarrow> file_read_ctx_t \<times> loop_vars" where
  "parse_logs_loop skip_latest_log read_ctx v =
     (case get_next_line skip_latest_log read_ctx of
        ((s, file_is_new), read_ctx', out) \<Rightarrow>
          if s = [] then
            (read_ctx',
             v\<lparr>loop_out := loop_out v @ out,
               loop_read_files := loop_read_files v @
                 (if length (paths read_ctx') > 0 then [paths read_ctx' ! (path_ind read_ctx' - 1)] else [])\<rparr>)
          else parse_logs_loop skip_latest_log read_ctx'
                 (parse_logs_body s file_is_new read_ctx' (v\<lparr>loop_out := loop_out v @ out\<rparr>)))"
  by pat_completeness auto
termination
proof (relation "inv_image rank_less (\<lambda>(_, read_ctx, _). read_ctx)", goal_cases)
  case 1
  show ?case by (intro wf_inv_image wf_rank_less)
next
  case 2
  then show ?case
    by (auto intro: get_next_line_rank [OF sym])
qed

declare parse_logs_loop.simps [simp del]

text \<open>
  \<open>parse_logs\<close> from the list of paths on; the template parameters \<open>skip_latest_log\<close> and
  \<open>save_ctx\<close> are the first two arguments, \<open>now\<close> is what \<open>system_clock::now()\<close> returns
  at the end, \<open>h\<close> the order of the container of the context. The result is the data, the
  context (returned by the source only with \<open>save_ctx\<close>), what was written and the calls
  of \<open>read_file_cb\<close>.
\<close>

definition parse_logs :: "bool \<Rightarrow> bool \<Rightarrow> time_point \<Rightarrow> (string list \<Rightarrow> string \<Rightarrow> nat) \<Rightarrow> log_file list
    \<Rightarrow> log_data_t \<times> parse_ctx_t \<times> message list \<times> log_file list" where
  "parse_logs skip_latest_log save_ctx now h ps =
     (case parse_logs_loop skip_latest_log
             \<lparr>fin = None, paths = ps, path_ind = 0, rd_date_tp = 0, rd_line = 0\<rparr>
             \<lparr>loop_ctx = new_ctx h, loop_info = Map.empty, loop_clear_before = False,
              loop_last_tp = 0, loop_out = [], loop_read_files = []\<rparr> of
        (read_ctx, v) \<Rightarrow>
          if save_ctx then (loop_info v, loop_ctx v, loop_out v, loop_read_files v)
          else (case clear_all_players False (loop_ctx v) (loop_info v) now of
                  (any, ctx', info', out') \<Rightarrow> (info', ctx', loop_out v @ out', loop_read_files v)))"

section \<open>The paths that \<open>parse_logs\<close> keeps\<close>

text \<open>\<open>p_str[i]\<close>: the character at \<open>i\<close>, and the terminating zero at \<open>i = size\<close>. The
  source never reads further: a listed name ends in \<open>.log\<close> or \<open>.gz\<close>, so a character
  that is no digit stops the checks before the end of the name is passed.\<close>

definition char_at :: "string \<Rightarrow> nat \<Rightarrow> char" where
  "char_at p_str i = (if i < length p_str then p_str ! i else CHR 0x00)"

lemma digit_in_range: "is_digit (char_at p_str i) \<Longrightarrow> i < length p_str"
  by (auto simp: char_at_def is_digit_def split: if_splits)

text \<open>The loop \<open>while (is_digit(p_str[ind])) ind++\<close>.\<close>

function skip_digits :: "string \<Rightarrow> nat \<Rightarrow> nat" where
  "skip_digits p_str ind = (if is_digit (char_at p_str ind) then skip_digits p_str (ind + 1) else ind)"
  by pat_completeness auto
termination
  by (relation "measure (\<lambda>(p_str, ind). length p_str - ind)") (auto dest: digit_in_range)

declare skip_digits.simps [simp del]

text \<open>The lambda given to \<open>std::erase_if\<close>: \<open>True\<close> removes the path. The pair is the file
  name of the path and whether it is a \<open>.gz\<close>.\<close>

definition erase_if_pred :: "bool \<Rightarrow> string \<times> bool \<Rightarrow> bool" where
  "erase_if_pred skip_latest_log p =
     (case p of
        (p_str, gz) \<Rightarrow>
          if \<not> skip_latest_log \<and> p_str = ''latest.log'' then False
          else if list_ex (\<lambda>i. \<not> is_digit (char_at p_str i)) [0, 1, 2, 3, 5, 6, 8, 9, 11] then True
          else if list_ex (\<lambda>i. char_at p_str i \<noteq> CHR ''-'') [4, 7, 10] then True
          else drop (skip_digits p_str 12) p_str \<noteq> (if gz then ''.log.gz'' else ''.log''))"

text \<open>\<open>path::extension()\<close> of a file name, a call into the standard library: the part from
  the last period on, empty for \<open>.\<close> and \<open>..\<close>, for a name without a period and for a
  name whose only period is its first character.\<close>

definition extension :: "string \<Rightarrow> string" where
  "extension name =
     (if name = ''.'' \<or> name = ''..'' then []
      else let n = length (dropWhile (\<lambda>c. c \<noteq> CHR ''.'') (rev name))
           in if n \<le> 1 then [] else drop (n - 1) name)"

text \<open>The first loop of \<open>parse_logs\<close> and the \<open>std::erase_if\<close> after it, on the entries of
  the directory given as file name and whether the entry is a regular file.\<close>

definition list_paths :: "bool \<Rightarrow> (string \<times> bool) list \<Rightarrow> (string \<times> bool) list" where
  "list_paths skip_latest_log entries =
     filter (\<lambda>p. \<not> erase_if_pred skip_latest_log p)
       (map (\<lambda>(name, regular). (name, extension name = ''.gz''))
          (filter (\<lambda>(name, regular). regular \<and> (extension name = ''.gz'' \<or> extension name = ''.log''))
             entries))"

section \<open>The watcher of \<open>file_watcher.c\<close>\<close>

text \<open>
  An \<open>inotify_event\<close>: the name is the string up to its first zero, \<open>len\<close> counts the
  name with its padding. The buffer \<open>read_data\<close> is kept as the list of the events it
  holds, and \<open>read_data_consumed_size\<close> and \<open>read_data_size\<close> count events instead of
  bytes. The masks are those of \<open>sys/inotify.h\<close>.
\<close>

record inotify_event =
  ev_mask :: "32 word"
  ev_cookie :: "32 word"
  ev_len :: nat
  ev_name :: string


record file_watcher_ctx =
  has_value :: bool
  cookie :: "32 word"
  filename :: string
  filename_size :: nat
  read_data :: "inotify_event list"
  read_data_consumed_size :: nat





text \<open>\<open>strncmp(a, b, n) == 0\<close> on strings that end at their first zero.\<close>

fun strncmp_eq :: "string \<Rightarrow> string \<Rightarrow> nat \<Rightarrow> bool" where
  "strncmp_eq a b 0 = True"
| "strncmp_eq [] [] (Suc n) = True"
| "strncmp_eq (x # xs) (y # ys) (Suc n) = (x = y \<and> strncmp_eq xs ys n)"
| "strncmp_eq [] (y # ys) (Suc n) = False"
| "strncmp_eq (x # xs) [] (Suc n) = False"

text \<open>The local \<open>strs_eq\<close> of \<open>file_watcher_poll\<close>: whether the event is for the watched
  name.\<close>

definition strs_eq :: "file_watcher_ctx \<Rightarrow> inotify_event \<Rightarrow> bool" where
  "strs_eq ctx event =
     (ev_len event > filename_size ctx \<and> strncmp_eq (ev_name event) (filename ctx) (filename_size ctx))"


section \<open>Evaluation and the effects of a line\<close>

lemmas stream_defs = parse_head_def from_stream_hms_def istream_of_def good_def expect_def
  read_unsigned_def is_digit_def digits_value_def read_char_def sentry_def isspace_def
  ignore_until_def read_string_def strip_cr_def

lemmas line_defs = parse_line_def parse_message_def ret_def player_joined_def player_left_def
  info_at_def add_session_def entry_at_def clear_all_players_def clear_before_flush_def
  parse_uuid_def hex_digit_to_uint64_def iteration_order_def round_seconds_def ticks_per_second_def

text \<open>Whatever the words of a line are, \<open>parse_message\<close> does one of seven things to
  the context, the data and the output.\<close>

lemma parse_message_effects:
  assumes run: "parse_message t ss pc ctx data out = (res, ctx', data', out')"
    and same: "Q ctx data []"
    and started: "server_stopped ctx \<Longrightarrow> Q (ctx\<lparr>server_stopped := False\<rparr>) data []"
    and stopped: "\<And>a c d o'. clear_all_players False ctx data t = (a, c, d, o') \<Longrightarrow> Q (c\<lparr>server_stopped := True\<rparr>) d o'"
    and bad_uuid: "\<And>txt n. \<not> server_stopped ctx \<Longrightarrow>
        Q ctx data [Error_uuid_parsing_failed txt n (cur_filename ctx) (line ctx)]"
    and uuid_set: "\<And>n u. \<not> server_stopped ctx \<Longrightarrow>
        Q (ctx\<lparr>player_info := AList.update n ((info_at (player_info ctx) n)\<lparr>uuid := Some u\<rparr>) (player_info ctx)\<rparr>) data []"
    and joined: "\<And>n c o'. \<not> server_stopped ctx \<Longrightarrow> player_joined t n ctx = (c, o') \<Longrightarrow> Q c data o'"
    and left: "\<And>n b c d o'. \<not> server_stopped ctx \<Longrightarrow> player_left t n ctx data = (b, c, d, o') \<Longrightarrow> Q c d o'"
  shows "\<exists>o'. out' = out @ o' \<and> Q ctx' data' o'"
  using run same started stopped bad_uuid uuid_set joined left
  unfolding parse_message_def ret_def
  by (auto split: prod.splits if_splits option.splits)

section \<open>The total is the sum of the sessions\<close>

definition total_ok :: "log_data_t \<Rightarrow> bool" where
  "total_ok data =
     (\<forall>u names play_sessions total_playtime.
        data u = Some (names, play_sessions, total_playtime) \<longrightarrow>
        total_playtime = sum_list (map snd play_sessions))"

lemma total_ok_add_session:
  "total_ok data \<Longrightarrow> total_ok (add_session data u n j l)"
  by (auto simp: total_ok_def add_session_def entry_at_def Let_def split: prod.splits option.splits if_splits)

lemma total_ok_clear_entries:
  "total_ok data \<Longrightarrow> clear_entries w f l ks es data = (a, es', d, out) \<Longrightarrow> total_ok d"
proof (induction ks arbitrary: es data a es' d out)
  case Nil
  then show ?case by simp
next
  case (Cons k ks)
  obtain n i where e: "es ! k = (n, i)" by (cases "es ! k")
  show ?case
  proof (cases "uuid i \<noteq> None \<and> join_time i \<noteq> None")
    case True
    then obtain u jt where i: "uuid i = Some u" "join_time i = Some jt" by auto
    obtain a1 es1 d1 o1 where r: "clear_entries w f l ks (es[k := (n, i\<lparr>join_time := None\<rparr>)])
        (add_session data u n jt l) = (a1, es1, d1, o1)"
      by (rule prod_cases4)
    from Cons.prems(2) e i r have "d = d1" by simp
    moreover have "total_ok d1"
      using Cons.IH [OF total_ok_add_session [OF Cons.prems(1)] r] .
    ultimately show ?thesis by simp
  next
    case False
    obtain a1 es1 d1 o1 where r: "clear_entries w f l ks es data = (a1, es1, d1, o1)"
      by (rule prod_cases4)
    from Cons.prems(2) e False r have "d = d1"
      by (auto split: option.splits)
    moreover have "total_ok d1" using Cons.IH [OF Cons.prems(1) r] .
    ultimately show ?thesis by simp
  qed
qed

lemma total_ok_clear_all_players:
  "total_ok data \<Longrightarrow> clear_all_players w ctx data l = (a, ctx', d, out) \<Longrightarrow> total_ok d"
  by (auto simp: clear_all_players_def split: prod.splits dest: total_ok_clear_entries)

lemma total_ok_player_left:
  "total_ok data \<Longrightarrow> player_left t n ctx data = (b, ctx', d, out) \<Longrightarrow> total_ok d"
  by (auto simp: player_left_def Let_def split: option.splits intro: total_ok_add_session)

lemma total_ok_parse_message:
  assumes "total_ok data" and run: "parse_message t ss pc ctx data out = (res, ctx', data', out')"
  shows "total_ok data'"
proof -
  have "\<exists>o'. out' = out @ o' \<and> total_ok data'"
    by (rule parse_message_effects [OF run, where Q = "\<lambda>c d o'. total_ok d"])
       (use assms(1) in \<open>auto dest: total_ok_clear_all_players total_ok_player_left\<close>)
  then show ?thesis by blast
qed

lemma total_ok_parse_line:
  assumes "total_ok data" and run: "parse_line scr text ctx data cb = (res, ctx', data', out)"
  shows "total_ok data'"
proof (cases "parse_head (if scr then strip_cr text else text)")
  case None
  with run show ?thesis using assms(1) by (simp add: parse_line_def ret_def)
next
  case (Some p)
  obtain off ss where p: "p = (off, ss)" by (cases p)
  obtain pc c1 d1 o1 where f: "clear_before_flush cb ctx data (date_tp ctx + off) = (pc, c1, d1, o1)"
    by (rule prod_cases4)
  have d1: "total_ok d1"
    using f assms(1) by (auto simp: clear_before_flush_def split: if_splits dest: total_ok_clear_all_players)
  from run Some p f have "parse_message (date_tp ctx + off) ss pc c1 d1 o1 = (res, ctx', data', out)"
    by (simp add: parse_line_def Let_def)
  with d1 show ?thesis by (rule total_ok_parse_message)
qed


text \<open>The states that calls of \<open>parse_line\<close> and \<open>clear_all_players\<close> reach from an empty
  store; between the calls the driver may set the file name, the date and the line number
  of the context.\<close>

inductive reachable :: "parse_ctx_t \<Rightarrow> log_data_t \<Rightarrow> bool" where
  start: "reachable ctx Map.empty"
| by_line: "reachable ctx data \<Longrightarrow> parse_line scr text ctx data cb = (res, ctx', data', out)
    \<Longrightarrow> reachable ctx' data'"
| by_flush: "reachable ctx data \<Longrightarrow> clear_all_players w ctx data t = (any, ctx', data', out)
    \<Longrightarrow> reachable ctx' data'"
| by_driver: "reachable ctx data \<Longrightarrow> reachable (ctx\<lparr>cur_filename := f, date_tp := d, line := n\<rparr>) data"

lemma total_ok_reachable: "reachable ctx data \<Longrightarrow> total_ok data"
proof (induction rule: reachable.induct)
  case (start ctx)
  show ?case by (simp add: total_ok_def)
next
  case (by_line ctx data scr str cb res ctx' data' out)
  then show ?case by (auto dest: total_ok_parse_line)
next
  case (by_flush ctx data w t any ctx' data' out)
  then show ?case by (auto dest: total_ok_clear_all_players)
next
  case (by_driver ctx data f d n)
  then show ?case by simp
qed

lemma reachable_parse_lines_loop:
  "reachable ctx data \<Longrightarrow> parse_lines_loop lines pos pc ctx data out = (b, ctx', data', out')
   \<Longrightarrow> reachable ctx' data'"
proof (induction lines pos pc ctx data out rule: parse_lines_loop.induct)
  case (1 lines pos players_changed ctx data out)
  show ?case
  proof (cases "find_char lines CHR 0x0A pos")
    case None
    with "1.prems" show ?thesis
      by (subst (asm) parse_lines_loop.simps) (auto split: prod.splits intro: reachable.by_line)
  next
    case (Some new_pos)
    obtain res c1 d1 o1 where pl: "parse_line True (take (new_pos - pos) (drop pos lines)) ctx data False = (res, c1, d1, o1)"
      by (rule prod_cases4)
    have r1: "reachable c1 d1" using "1.prems"(1) pl by (rule reachable.by_line)
    have "parse_lines_loop lines (new_pos + 1) (players_changed \<or> player_join_left res) c1 d1 (out @ o1)
        = (b, ctx', data', out')"
      using "1.prems"(2) Some pl by (subst (asm) parse_lines_loop.simps) simp
    from "1.IH" [OF Some pl [symmetric] refl refl r1 this] show ?thesis .
  qed
qed

lemma reachable_parse_lines:
  "reachable ctx data \<Longrightarrow> parse_lines lines ctx data = (b, ctx', data', out) \<Longrightarrow> reachable ctx' data'"
  unfolding parse_lines_def by (rule reachable_parse_lines_loop)

text \<open>The context that the examples start from: a container that visits its entries in
  the order of their insertion.\<close>

definition empty_ctx :: parse_ctx_t where
  "empty_ctx = new_ctx (\<lambda>keys name. 0)"

text \<open>A day on which Bob is identified, joins at 10:00:00 and leaves at 11:00:00.\<close>

definition bob :: uuid_t where
  "bob = \<lparr>first = 0xFEDCBA9876543210, second = 0xFEDCBA9876543210\<rparr>"

definition day_log :: string where
  "day_log =
     ''[09:59:58] [User Authenticator #1/INFO]: UUID of player Bob is 01234567-89ab-cdef-0123-456789abcdef'' @ [CHR 0x0A]
     @ ''[10:00:00] [Server thread/INFO]: Bob joined the game'' @ [CHR 0x0A]
     @ ''[11:00:00] [Server thread/INFO]: Bob left the game'' @ [CHR 0x0A]"

lemma parse_lines_day_log:
  "parse_lines day_log empty_ctx Map.empty =
     (True, empty_ctx\<lparr>player_info := [(''Bob'', \<lparr>uuid = Some bob, join_time = None\<rparr>)]\<rparr>,
      [bob \<mapsto> ([''Bob''], [(36000000000000, 3600000000000)], 3600000000000)], [])"
  by (simp add: parse_lines_def day_log_def parse_lines_loop.simps find_char_def empty_ctx_def new_ctx_def bob_def
      stream_defs line_defs Let_def)

text \<open>
  C1. For every identity in the store, after any sequence of calls of \<open>parse_line\<close> and of
  flushes by \<open>clear_all_players\<close> that starts from an empty store, the total play time of
  the entry is the sum of the durations of its sessions.
\<close>

theorem total_is_sum_of_sessions:
  assumes "reachable ctx data"
    and "data u = Some (names, play_sessions, total_playtime)"
  shows "total_playtime = sum_list (map snd play_sessions)"
  using total_ok_reachable [OF assms(1)] assms(2) unfolding total_ok_def by blast

theorem total_is_sum_of_sessions_witness:
  "reachable (empty_ctx\<lparr>player_info := [(''Bob'', \<lparr>uuid = Some bob, join_time = None\<rparr>)]\<rparr>)
     [bob \<mapsto> ([''Bob''], [(36000000000000, 3600000000000)], 3600000000000)]
   \<and> [bob \<mapsto> ([''Bob''], [(36000000000000, 3600000000000)], 3600000000000 :: 64 word)] bob = Some ([''Bob''], [(36000000000000, 3600000000000)], 3600000000000)
   \<and> (3600000000000 :: 64 word) = sum_list (map snd [(36000000000000 :: 64 word, 3600000000000 :: 64 word)])"
proof -
  have r: "reachable (empty_ctx\<lparr>player_info := [(''Bob'', \<lparr>uuid = Some bob, join_time = None\<rparr>)]\<rparr>)
      [bob \<mapsto> ([''Bob''], [(36000000000000, 3600000000000)], 3600000000000)]"
    by (rule reachable_parse_lines [OF reachable.start parse_lines_day_log])
  have l: "[bob \<mapsto> ([''Bob''], [(36000000000000, 3600000000000)], 3600000000000 :: 64 word)] bob = Some ([''Bob''], [(36000000000000, 3600000000000)], 3600000000000)"
    by simp
  from r l total_is_sum_of_sessions [OF r l] show ?thesis by simp
qed

section \<open>The pending cookie of the watcher\<close>


lemma strs_eq_frame [simp]:
  "strs_eq (ctx\<lparr>read_data_consumed_size := n\<rparr>) e = strs_eq ctx e"
  "strs_eq (ctx\<lparr>read_data := es\<rparr>) e = strs_eq ctx e"
  by (simp_all add: strs_eq_def)















section \<open>What a flush does\<close>

text \<open>An entry of \<open>player_info\<close> after \<open>clear_all_players\<close>: the join time is cleared where
  the entry has both an identity and a join time.\<close>

definition flushed :: "single_player_info \<Rightarrow> single_player_info" where
  "flushed i = (if uuid i \<noteq> None \<and> join_time i \<noteq> None then i\<lparr>join_time := None\<rparr> else i)"

text \<open>The sessions on file for an identity.\<close>

definition sessions_of :: "log_data_t \<Rightarrow> uuid_t \<Rightarrow> play_session list" where
  "sessions_of data u = fst (snd (entry_at data u))"

lemma sessions_of_add_session:
  "sessions_of (add_session data u n j l) v =
     (if v = u then sessions_of data u @ [(j, l - j)] else sessions_of data v)"
  by (simp add: sessions_of_def add_session_def entry_at_def Let_def split: prod.splits option.splits)

text \<open>The sessions that a flush at \<open>leave_time\<close> appends for identity \<open>v\<close>.\<close>

fun flush_sessions :: "time_point \<Rightarrow> (string \<times> single_player_info) list \<Rightarrow> uuid_t \<Rightarrow> play_session list" where
  "flush_sessions leave_time [] v = []"
| "flush_sessions leave_time ((n, i) # entries) v =
     (case (uuid i, join_time i) of
        (Some u, Some jt) \<Rightarrow> (if u = v then [(jt, leave_time - jt)] else []) @ flush_sessions leave_time entries v
      | _ \<Rightarrow> flush_sessions leave_time entries v)"

text \<open>The entries in the order in which a loop over the container visits them.\<close>

definition visited :: "parse_ctx_t \<Rightarrow> (string \<times> single_player_info) list" where
  "visited ctx = map ((!) (player_info ctx)) (iteration_order ctx)"

lemma iteration_order_set: "set (iteration_order ctx) = {0..<length (player_info ctx)}"
  by (simp add: iteration_order_def)

lemma iteration_order_distinct: "distinct (iteration_order ctx)"
  by (simp add: iteration_order_def)

lemma set_visited: "set (visited ctx) = set (player_info ctx)"
proof -
  have "set (visited ctx) = (!) (player_info ctx) ` {0..<length (player_info ctx)}"
    by (simp add: visited_def iteration_order_set)
  then show ?thesis by (simp add: nth_image)
qed

lemma iteration_order_frame [simp]:
  "iteration_order (ctx\<lparr>cur_filename := f\<rparr>) = iteration_order ctx"
  "iteration_order (ctx\<lparr>date_tp := d\<rparr>) = iteration_order ctx"
  "iteration_order (ctx\<lparr>line := n\<rparr>) = iteration_order ctx"
  "iteration_order (ctx\<lparr>server_stopped := b\<rparr>) = iteration_order ctx"
  by (simp_all add: iteration_order_def)

lemma visited_frame [simp]:
  "visited (ctx\<lparr>cur_filename := f\<rparr>) = visited ctx"
  "visited (ctx\<lparr>date_tp := d\<rparr>) = visited ctx"
  "visited (ctx\<lparr>line := n\<rparr>) = visited ctx"
  "visited (ctx\<lparr>server_stopped := b\<rparr>) = visited ctx"
  by (simp_all add: visited_def)

lemma clear_entries_result:
  "clear_entries w f l ks es data = (a, es', d, out) \<Longrightarrow> distinct ks \<Longrightarrow> \<forall>k \<in> set ks. k < length es \<Longrightarrow>
     length es' = length es
     \<and> (\<forall>j < length es. es' ! j = (if j \<in> set ks then (fst (es ! j), flushed (snd (es ! j))) else es ! j))
     \<and> (\<forall>v. sessions_of d v = sessions_of data v @ flush_sessions l (map ((!) es) ks) v)"
proof (induction ks arbitrary: es data a es' d out)
  case Nil
  then show ?case by simp
next
  case (Cons k ks)
  obtain n i where e: "es ! k = (n, i)" by (cases "es ! k")
  from Cons.prems have k: "k \<notin> set ks" "k < length es" and dist: "distinct ks"
    and bound: "\<forall>k \<in> set ks. k < length es"
    by simp_all
  show ?case
  proof (cases "uuid i \<noteq> None \<and> join_time i \<noteq> None")
    case True
    then obtain u jt where i: "uuid i = Some u" "join_time i = Some jt" by auto
    let ?es1 = "es[k := (n, i\<lparr>join_time := None\<rparr>)]"
    obtain a1 es1 d1 o1 where r: "clear_entries w f l ks ?es1 (add_session data u n jt l) = (a1, es1, d1, o1)"
      by (rule prod_cases4)
    from Cons.prems(1) e i r have eq: "es' = es1" "d = d1" by simp_all
    have bound1: "\<forall>k \<in> set ks. k < length ?es1" using bound by simp
    note ih = Cons.IH [OF r dist bound1]
    have same: "map ((!) ?es1) ks = map ((!) es) ks"
      using k(1) by (auto intro!: nth_list_update_neq)
    have fl: "flushed i = i\<lparr>join_time := None\<rparr>" using i by (simp add: flushed_def)
    have 1: "length es' = length es" using ih eq by simp
    have 2: "\<forall>j < length es. es' ! j = (if j \<in> set (k # ks) then (fst (es ! j), flushed (snd (es ! j))) else es ! j)"
    proof (intro allI impI)
      fix j assume j: "j < length es"
      from ih j have h: "es1 ! j = (if j \<in> set ks then (fst (?es1 ! j), flushed (snd (?es1 ! j))) else ?es1 ! j)"
        by simp
      show "es' ! j = (if j \<in> set (k # ks) then (fst (es ! j), flushed (snd (es ! j))) else es ! j)"
      proof (cases "j = k")
        case True
        with h k j e fl eq show ?thesis by simp
      next
        case False
        with h eq show ?thesis by simp
      qed
    qed
    have 3: "\<forall>v. sessions_of d v = sessions_of data v @ flush_sessions l (map ((!) es) (k # ks)) v"
    proof
      fix v
      from ih have "sessions_of d1 v = sessions_of (add_session data u n jt l) v @ flush_sessions l (map ((!) ?es1) ks) v"
        by blast
      then show "sessions_of d v = sessions_of data v @ flush_sessions l (map ((!) es) (k # ks)) v"
        unfolding same using eq e i by (simp add: sessions_of_add_session)
    qed
    from 1 2 3 show ?thesis by blast
  next
    case False
    obtain a1 es1 d1 o1 where r: "clear_entries w f l ks es data = (a1, es1, d1, o1)"
      by (rule prod_cases4)
    from Cons.prems(1) e False r have eq: "es' = es1" "d = d1"
      by (auto split: option.splits)
    note ih = Cons.IH [OF r dist bound]
    have fs: "flush_sessions l (map ((!) es) (k # ks)) v = flush_sessions l (map ((!) es) ks) v" for v
      using False e by (auto split: option.splits)
    have fl: "flushed i = i" using False by (auto simp: flushed_def)
    have 1: "length es' = length es" using ih eq by simp
    have 2: "\<forall>j < length es. es' ! j = (if j \<in> set (k # ks) then (fst (es ! j), flushed (snd (es ! j))) else es ! j)"
    proof (intro allI impI)
      fix j assume j: "j < length es"
      from ih j have h: "es1 ! j = (if j \<in> set ks then (fst (es ! j), flushed (snd (es ! j))) else es ! j)"
        by simp
      show "es' ! j = (if j \<in> set (k # ks) then (fst (es ! j), flushed (snd (es ! j))) else es ! j)"
      proof (cases "j = k")
        case True
        with h k e fl eq show ?thesis by simp
      next
        case False
        with h eq show ?thesis by simp
      qed
    qed
    have 3: "\<forall>v. sessions_of d v = sessions_of data v @ flush_sessions l (map ((!) es) (k # ks)) v"
      using ih eq fs by simp
    from 1 2 3 show ?thesis by blast
  qed
qed

lemma flush_sessions_member:
  "(n, i) \<in> set es \<Longrightarrow> uuid i = Some u \<Longrightarrow> join_time i = Some jt \<Longrightarrow> (jt, l - jt) \<in> set (flush_sessions l es u)"
  by (induction es) (auto split: option.splits)

lemma flush_sessions_origin:
  "(j, d) \<in> set (flush_sessions l es u) \<Longrightarrow>
     d = l - j \<and> (\<exists>n i. (n, i) \<in> set es \<and> uuid i = Some u \<and> join_time i = Some j)"
proof (induction es)
  case Nil
  then show ?case by simp
next
  case (Cons e es)
  obtain n i where e: "e = (n, i)" by (cases e)
  from Cons.prems e have "(uuid i = Some u \<and> join_time i = Some j \<and> d = l - j)
      \<or> (j, d) \<in> set (flush_sessions l es u)"
    by (auto split: option.splits if_splits)
  then show ?case
  proof
    assume "uuid i = Some u \<and> join_time i = Some j \<and> d = l - j"
    with e show ?thesis by auto
  next
    assume "(j, d) \<in> set (flush_sessions l es u)"
    from Cons.IH [OF this] show ?thesis by auto
  qed
qed

lemma clear_all_players_result:
  assumes "clear_all_players w ctx data leave_time = (any, ctx', data', out)"
  shows "ctx' = ctx\<lparr>player_info := map (\<lambda>(n, i). (n, flushed i)) (player_info ctx)\<rparr>"
    and "sessions_of data' v = sessions_of data v @ flush_sessions leave_time (visited ctx) v"
proof -
  obtain es' where c: "clear_entries w (cur_filename ctx) leave_time (iteration_order ctx) (player_info ctx) data
      = (any, es', data', out)"
    and p: "ctx' = ctx\<lparr>player_info := es'\<rparr>"
    using assms by (auto simp: clear_all_players_def split: prod.splits)
  have bound: "\<forall>k \<in> set (iteration_order ctx). k < length (player_info ctx)"
    by (simp add: iteration_order_set)
  note r = clear_entries_result [OF c iteration_order_distinct bound]
  have "es' = map (\<lambda>(n, i). (n, flushed i)) (player_info ctx)"
  proof (rule nth_equalityI)
    show "length es' = length (map (\<lambda>(n, i). (n, flushed i)) (player_info ctx))"
      using r by simp
  next
    fix j assume "j < length es'"
    with r have j: "j < length (player_info ctx)" by simp
    with r have "es' ! j = (fst (player_info ctx ! j), flushed (snd (player_info ctx ! j)))"
      by (simp add: iteration_order_set)
    with j show "es' ! j = map (\<lambda>(n, i). (n, flushed i)) (player_info ctx) ! j"
      by (simp add: case_prod_beta)
  qed
  with p show "ctx' = ctx\<lparr>player_info := map (\<lambda>(n, i). (n, flushed i)) (player_info ctx)\<rparr>"
    by simp
  show "sessions_of data' v = sessions_of data v @ flush_sessions leave_time (visited ctx) v"
    using r by (simp add: visited_def)
qed


section \<open>Lines with a join or a leave message\<close>

text \<open>A name as the parser reads it: one word without white space.\<close>

definition is_word :: "string \<Rightarrow> bool" where
  "is_word w = (w \<noteq> [] \<and> list_all (\<lambda>c. \<not> isspace c) w)"

text \<open>The time of day of a line whose time stamp and tag are recognised, and the text
  that follows the colon of the tag.\<close>

definition message_of :: "bool \<Rightarrow> string \<Rightarrow> (duration \<times> string) option" where
  "message_of strip_ending_cr text =
     map_option (\<lambda>(time_offset, ss). (time_offset, rest ss))
       (parse_head (if strip_ending_cr then strip_cr text else text))"

lemma parse_head_good: "parse_head text = Some (off, ss) \<Longrightarrow> good ss"
  by (auto simp: parse_head_def split: option.splits prod.splits if_splits)

lemma takeWhile_word:
  "list_all (\<lambda>c. \<not> isspace c) w \<Longrightarrow> r = [] \<or> isspace (hd r) \<Longrightarrow>
     takeWhile (\<lambda>c. \<not> isspace c) (w @ r) = w \<and> dropWhile (\<lambda>c. \<not> isspace c) (w @ r) = r"
  by (induction w) (cases r; auto)+

lemma read_string_word:
  assumes "good ss" "rest ss = CHR '' '' # w @ r" "is_word w" "r = [] \<or> isspace (hd r)"
  shows "read_string old ss = (w, ss\<lparr>rest := r, eofbit := (r = []), failbit := False\<rparr>)"
proof -
  from assms(3) obtain c cs where w: "w = c # cs" "\<not> isspace c" "list_all (\<lambda>c. \<not> isspace c) w"
    by (cases w) (auto simp: is_word_def)
  have d: "dropWhile isspace (rest ss) = w @ r"
    using assms(2) w by (simp add: isspace_def)
  from takeWhile_word [OF w(3) assms(4)]
  show ?thesis
    using assms(1) d w(1) by (simp add: read_string_def sentry_def Let_def)
qed

lemma read_left:
  "read_string old (ss\<lparr>rest := '' left the game'', eofbit := False, failbit := False\<rparr>)
     = (''left'', ss\<lparr>rest := '' the game'', eofbit := False, failbit := False\<rparr>)"
  by (simp add: read_string_def sentry_def good_def isspace_def Let_def)

lemma read_joined:
  "read_string old (ss\<lparr>rest := '' joined the game'', eofbit := False, failbit := False\<rparr>)
     = (''joined'', ss\<lparr>rest := '' the game'', eofbit := False, failbit := False\<rparr>)"
  by (simp add: read_string_def sentry_def good_def isspace_def Let_def)

lemma read_the:
  "read_string old (ss\<lparr>rest := '' the game'', eofbit := False, failbit := False\<rparr>)
     = (''the'', ss\<lparr>rest := '' game'', eofbit := False, failbit := False\<rparr>)"
  by (simp add: read_string_def sentry_def good_def isspace_def Let_def)

lemma read_game:
  "read_string old (ss\<lparr>rest := '' game'', eofbit := False, failbit := False\<rparr>)
     = (''game'', ss\<lparr>rest := [], eofbit := True, failbit := False\<rparr>)"
  by (simp add: read_string_def sentry_def good_def isspace_def Let_def)

lemma read_name:
  assumes "good ss" "rest ss = CHR '' '' # name @ CHR '' '' # r" "is_word name"
  shows "read_string old ss = (name, ss\<lparr>rest := CHR '' '' # r, eofbit := False, failbit := False\<rparr>)"
  using read_string_word [OF assms(1) assms(2) assms(3), of old] by (simp add: isspace_def)

lemma parse_message_left:
  assumes "good ss" "rest ss = CHR '' '' # name @ '' left the game''" "is_word name"
    "\<not> server_stopped ctx"
  shows "parse_message t ss pc ctx data out =
     (case player_left t name ctx data of
        (b, ctx', data', out') \<Rightarrow> ret True (pc \<or> b) ctx' data' (out @ out'))"
proof -
  have r1: "read_string [] ss = (name, ss\<lparr>rest := '' left the game'', eofbit := False, failbit := False\<rparr>)"
    using read_name [OF assms(1) _ assms(3), of "''left the game''" "[]"] assms(2) by simp
  show ?thesis
    using assms(4)
    by (simp add: parse_message_def r1 read_left read_the read_game)
qed

lemma parse_message_joined:
  assumes "good ss" "rest ss = CHR '' '' # name @ '' joined the game''" "is_word name"
    "\<not> server_stopped ctx"
  shows "parse_message t ss pc ctx data out =
     (case player_joined t name ctx of (ctx', out') \<Rightarrow> ret True True ctx' data (out @ out'))"
proof -
  have r1: "read_string [] ss = (name, ss\<lparr>rest := '' joined the game'', eofbit := False, failbit := False\<rparr>)"
    using read_name [OF assms(1) _ assms(3), of "''joined the game''" "[]"] assms(2) by simp
  show ?thesis
    using assms(4)
    by (simp add: parse_message_def r1 read_joined read_the read_game)
qed

lemma parse_message_stopped:
  assumes "good ss" "rest ss = CHR '' '' # name @ body" "is_word name"
    "body = '' joined the game'' \<or> body = '' left the game''"
    "server_stopped ctx"
  shows "parse_message t ss pc ctx data out = ret True pc ctx data out"
  using assms(4)
proof
  assume b: "body = '' joined the game''"
  have r1: "read_string [] ss = (name, ss\<lparr>rest := '' joined the game'', eofbit := False, failbit := False\<rparr>)"
    using read_name [OF assms(1) _ assms(3), of "''joined the game''" "[]"] assms(2) b by simp
  show ?thesis
    using assms(5)
    by (simp add: parse_message_def r1 read_joined read_the)
next
  assume b: "body = '' left the game''"
  have r1: "read_string [] ss = (name, ss\<lparr>rest := '' left the game'', eofbit := False, failbit := False\<rparr>)"
    using read_name [OF assms(1) _ assms(3), of "''left the game''" "[]"] assms(2) b by simp
  show ?thesis
    using assms(5)
    by (simp add: parse_message_def r1 read_left read_the)
qed

lemma parse_line_recognised:
  assumes "message_of scr text = Some (off, body)"
  shows "\<exists>ss. good ss \<and> rest ss = body \<and>
     parse_line scr text ctx data cb =
       (case clear_before_flush cb ctx data (date_tp ctx + off) of
          (pc, ctx1, data1, out1) \<Rightarrow> parse_message (date_tp ctx + off) ss pc ctx1 data1 out1)"
proof -
  from assms obtain ss where h: "parse_head (if scr then strip_cr text else text) = Some (off, ss)"
    and b: "rest ss = body"
    by (auto simp: message_of_def)
  have "good ss" using h by (rule parse_head_good)
  moreover have "parse_line scr text ctx data cb =
       (case clear_before_flush cb ctx data (date_tp ctx + off) of
          (pc, ctx1, data1, out1) \<Rightarrow> parse_message (date_tp ctx + off) ss pc ctx1 data1 out1)"
    using h by (simp add: parse_line_def Let_def)
  ultimately show ?thesis using b by blast
qed

text \<open>Both wordings of the stop message flush at the instant of the line; the longer one
  only while the server is not yet stopped.\<close>

lemma stopping_server_flushes:
  assumes "message_of scr text = Some (off, '' Stopping server'')"
  shows "parse_line scr text ctx data False =
     (case clear_all_players False ctx data (date_tp ctx + off) of
        (any, ctx', data', out) \<Rightarrow>
          (\<lparr>read_valid_line = True, player_join_left = any\<rparr>, ctx'\<lparr>server_stopped := True\<rparr>, data', out))"
proof -
  from parse_line_recognised [OF assms, of ctx data False]
  obtain ss where ss: "good ss" "rest ss = '' Stopping server''"
    and pl: "parse_line scr text ctx data False = parse_message (date_tp ctx + off) ss False ctx data []"
    by (auto simp: clear_before_flush_def)
  have r1: "read_string [] ss = (''Stopping'', ss\<lparr>rest := '' server'', eofbit := False, failbit := False\<rparr>)"
    using ss by (simp add: read_string_def sentry_def isspace_def Let_def)
  have r2: "read_string [] (ss\<lparr>rest := '' server'', eofbit := False, failbit := False\<rparr>)
      = (''server'', ss\<lparr>rest := [], eofbit := True, failbit := False\<rparr>)"
    by (simp add: read_string_def sentry_def good_def isspace_def Let_def)
  show ?thesis
    unfolding pl by (simp add: parse_message_def r1 r2 ret_def split: prod.splits)
qed

lemma stopping_the_server_flushes:
  assumes "message_of scr text = Some (off, '' Stopping the server'')" "\<not> server_stopped ctx"
  shows "parse_line scr text ctx data False =
     (case clear_all_players False ctx data (date_tp ctx + off) of
        (any, ctx', data', out) \<Rightarrow>
          (\<lparr>read_valid_line = True, player_join_left = any\<rparr>, ctx'\<lparr>server_stopped := True\<rparr>, data', out))"
proof -
  from parse_line_recognised [OF assms(1), of ctx data False]
  obtain ss where ss: "good ss" "rest ss = '' Stopping the server''"
    and pl: "parse_line scr text ctx data False = parse_message (date_tp ctx + off) ss False ctx data []"
    by (auto simp: clear_before_flush_def)
  have r1: "read_string [] ss = (''Stopping'', ss\<lparr>rest := '' the server'', eofbit := False, failbit := False\<rparr>)"
    using ss by (simp add: read_string_def sentry_def isspace_def Let_def)
  have r2: "read_string [] (ss\<lparr>rest := '' the server'', eofbit := False, failbit := False\<rparr>)
      = (''the'', ss\<lparr>rest := '' server'', eofbit := False, failbit := False\<rparr>)"
    by (simp add: read_string_def sentry_def good_def isspace_def Let_def)
  have r3: "read_string [] (ss\<lparr>rest := '' server'', eofbit := False, failbit := False\<rparr>)
      = (''server'', ss\<lparr>rest := [], eofbit := True, failbit := False\<rparr>)"
    by (simp add: read_string_def sentry_def good_def isspace_def Let_def)
  show ?thesis
    unfolding pl using assms(2) by (simp add: parse_message_def r1 r2 r3 ret_def split: prod.splits)
qed

lemma clear_before_flush_result:
  assumes "clear_before_flush cb ctx data t = (pc, ctx1, data1, out1)"
  shows "ctx1 = ctx\<lparr>player_info := (if cb then map (\<lambda>(n, i). (n, flushed i)) (player_info ctx) else player_info ctx)\<rparr>"
    and "\<not> cb \<Longrightarrow> data1 = data \<and> out1 = [] \<and> \<not> pc"
  using assms clear_all_players_result(1) [of True ctx data t pc ctx1 data1 out1]
  by (auto simp: clear_before_flush_def split: if_splits)

lemma flushed_empty: "flushed \<lparr>uuid = None, join_time = None\<rparr> = \<lparr>uuid = None, join_time = None\<rparr>"
  by (simp add: flushed_def)

lemma info_at_flushed:
  "info_at (map (\<lambda>(n, i). (n, flushed i)) es) name = flushed (info_at es name)"
  by (induction es) (auto simp: info_at_def flushed_empty)

lemma keys_flushed: "fst ` set (map (\<lambda>(n, i). (n, flushed i)) es) = fst ` set es"
  by (induction es) auto

lemma update_missing: "k \<notin> fst ` set al \<Longrightarrow> AList.update k v al = al @ [(k, v)]"
  by (induction al) auto

lemma info_at_missing: "k \<notin> fst ` set al \<Longrightarrow> info_at al k = \<lparr>uuid = None, join_time = None\<rparr>"
proof -
  assume "k \<notin> fst ` set al"
  then have "map_of al k = None" by (simp add: map_of_eq_None_iff)
  then show ?thesis by (simp add: info_at_def)
qed

text \<open>
  C4 (as the code has it). For a recognised line \<open><name> left the game\<close> where the name
  has no identity or no join instant in the context, and while \<open>server_stopped\<close> is false,
  \<open>parse_line\<close> adds nothing to the store for the leave (the store is what the flush of
  \<open>clear_before\<close> left, and unchanged without \<open>clear_before\<close>), writes one error message
  after those of the flush, and returns \<open>read_valid_line = true\<close>.
\<close>

theorem leave_without_join_is_rejected:
  assumes msg: "message_of scr text = Some (off, CHR '' '' # name @ '' left the game'')"
    and word: "is_word name"
    and running: "\<not> server_stopped ctx"
    and missing: "uuid (info_at (player_info ctx) name) = None \<or> join_time (info_at (player_info ctx) name) = None"
    and flush: "clear_before_flush cb ctx data (date_tp ctx + off) = (pc, ctx1, data1, out1)"
    and run: "parse_line scr text ctx data cb = (res, ctx', data', out)"
  shows "data' = data1 \<and> (\<not> cb \<longrightarrow> data' = data) \<and> read_valid_line res
    \<and> out = out1 @ [if uuid (info_at (player_info ctx) name) = None
                     then Error_uuid_not_found name (cur_filename ctx) (line ctx)
                     else Error_join_time_not_found name (cur_filename ctx) (line ctx)]"
proof -
  note f = clear_before_flush_result [OF flush]
  have i1: "info_at (player_info ctx1) name = (if cb then flushed (info_at (player_info ctx) name)
      else info_at (player_info ctx) name)"
    by (subst f(1)) (simp add: info_at_flushed)
  have u1: "uuid (info_at (player_info ctx1) name) = uuid (info_at (player_info ctx) name)"
    unfolding i1 by (simp add: flushed_def)
  have j1: "uuid (info_at (player_info ctx) name) \<noteq> None \<Longrightarrow> join_time (info_at (player_info ctx1) name) = None"
    unfolding i1 using missing by (auto simp: flushed_def)
  have s1: "\<not> server_stopped ctx1" "cur_filename ctx1 = cur_filename ctx" "line ctx1 = line ctx"
    using running by (simp_all add: f(1))
  from parse_line_recognised [OF msg, of ctx data cb] flush
  obtain ss where ss: "good ss" "rest ss = CHR '' '' # name @ '' left the game''"
    and pl: "parse_line scr text ctx data cb = parse_message (date_tp ctx + off) ss pc ctx1 data1 out1"
    by auto
  have "parse_message (date_tp ctx + off) ss pc ctx1 data1 out1 =
     (case player_left (date_tp ctx + off) name ctx1 data1 of
        (b, ctx', data', out') \<Rightarrow> ret True (pc \<or> b) ctx' data' (out1 @ out'))"
    by (rule parse_message_left [OF ss word s1(1)])
  with pl run have r: "(res, ctx', data', out) =
     (case player_left (date_tp ctx + off) name ctx1 data1 of
        (b, ctx', data', out') \<Rightarrow> ret True (pc \<or> b) ctx' data' (out1 @ out'))"
    by simp
  have "data' = data1 \<and> read_valid_line res
    \<and> out = out1 @ [if uuid (info_at (player_info ctx) name) = None
                     then Error_uuid_not_found name (cur_filename ctx) (line ctx)
                     else Error_join_time_not_found name (cur_filename ctx) (line ctx)]"
  proof (cases "uuid (info_at (player_info ctx) name)")
    case None
    with r u1 s1 show ?thesis by (simp add: player_left_def Let_def ret_def)
  next
    case (Some u)
    with j1 have "join_time (info_at (player_info ctx1) name) = None" by simp
    with r u1 s1 Some show ?thesis by (simp add: player_left_def Let_def ret_def)
  qed
  with f(2) show ?thesis by simp
qed

text \<open>With \<open>clear_before\<close> the entry is added to the map as the flush left it.\<close>

lemma leave_line_of_unknown_name:
  assumes msg: "message_of scr text = Some (off, CHR '' '' # name @ '' left the game'')"
    and word: "is_word name"
    and running: "\<not> server_stopped ctx"
    and unknown: "name \<notin> fst ` set (player_info ctx)"
    and flush: "clear_before_flush cb ctx data (date_tp ctx + off) = (pc, ctx1, data1, out1)"
    and run: "parse_line scr text ctx data cb = (res, ctx', data', out)"
  shows "player_info ctx' = player_info ctx1 @ [(name, \<lparr>uuid = None, join_time = None\<rparr>)]
    \<and> data' = data1
    \<and> (\<not> cb \<longrightarrow> player_info ctx' = player_info ctx @ [(name, \<lparr>uuid = None, join_time = None\<rparr>)]
                \<and> data' = data)
    \<and> out = out1 @ [Error_uuid_not_found name (cur_filename ctx) (line ctx)]
    \<and> read_valid_line res"
proof -
  note f = clear_before_flush_result [OF flush]
  have k1: "name \<notin> fst ` set (player_info ctx1)"
    using unknown by (subst f(1)) (simp add: keys_flushed del: set_map)
  have s1: "\<not> server_stopped ctx1" "cur_filename ctx1 = cur_filename ctx" "line ctx1 = line ctx"
    using running by (simp_all add: f(1))
  from parse_line_recognised [OF msg, of ctx data cb] flush
  obtain ss where ss: "good ss" "rest ss = CHR '' '' # name @ '' left the game''"
    and pl: "parse_line scr text ctx data cb = parse_message (date_tp ctx + off) ss pc ctx1 data1 out1"
    by auto
  have "parse_message (date_tp ctx + off) ss pc ctx1 data1 out1 =
     (case player_left (date_tp ctx + off) name ctx1 data1 of
        (b, ctx', data', out') \<Rightarrow> ret True (pc \<or> b) ctx' data' (out1 @ out'))"
    by (rule parse_message_left [OF ss word s1(1)])
  with pl run have r: "(res, ctx', data', out) =
     (case player_left (date_tp ctx + off) name ctx1 data1 of
        (b, ctx', data', out') \<Rightarrow> ret True (pc \<or> b) ctx' data' (out1 @ out'))"
    by simp
  have "player_info ctx' = player_info ctx1 @ [(name, \<lparr>uuid = None, join_time = None\<rparr>)]
    \<and> data' = data1 \<and> out = out1 @ [Error_uuid_not_found name (cur_filename ctx) (line ctx)]
    \<and> read_valid_line res"
    using r s1 by (simp add: player_left_def Let_def ret_def info_at_missing [OF k1] update_missing [OF k1])
  moreover have "\<not> cb \<Longrightarrow> player_info ctx1 = player_info ctx \<and> data1 = data"
    using f by simp
  ultimately show ?thesis by simp
qed

text \<open>
  C10 (as the code has it). The leave handler, called for a name without an entry in the
  map of the context, inserts an entry for that name with neither identity nor join
  instant and rejects the leave with an error: the store is unchanged, the map has grown
  by one entry. A recognised line \<open><name> left the game\<close> reaches the handler only while
  the server is not stopped; then the map grows from leave lines of names that never
  joined. In the Stopped state the line returns before the handler and inserts nothing.
\<close>

theorem leave_of_unknown_name_inserts_entry:
  assumes unknown: "name \<notin> fst ` set (player_info ctx)"
  shows "player_left cur_time name ctx data =
           (False, ctx\<lparr>player_info := player_info ctx @ [(name, \<lparr>uuid = None, join_time = None\<rparr>)]\<rparr>,
            data, [Error_uuid_not_found name (cur_filename ctx) (line ctx)])
     \<and> (message_of scr text = Some (off, CHR '' '' # name @ '' left the game'') \<and> is_word name
          \<and> \<not> server_stopped ctx \<longrightarrow>
        parse_line scr text ctx data False =
           (\<lparr>read_valid_line = True, player_join_left = False\<rparr>,
            ctx\<lparr>player_info := player_info ctx @ [(name, \<lparr>uuid = None, join_time = None\<rparr>)]\<rparr>,
            data, [Error_uuid_not_found name (cur_filename ctx) (line ctx)]))"
proof (intro conjI impI)
  show handler: "player_left t name ctx data =
           (False, ctx\<lparr>player_info := player_info ctx @ [(name, \<lparr>uuid = None, join_time = None\<rparr>)]\<rparr>,
            data, [Error_uuid_not_found name (cur_filename ctx) (line ctx)])" for t
    by (simp add: player_left_def Let_def info_at_missing [OF unknown] update_missing [OF unknown])
  assume h: "message_of scr text = Some (off, CHR '' '' # name @ '' left the game'') \<and> is_word name
          \<and> \<not> server_stopped ctx"
  from parse_line_recognised [of scr "text" off _ ctx data False] h
  obtain ss where ss: "good ss" "rest ss = CHR '' '' # name @ '' left the game''"
    and pl: "parse_line scr text ctx data False = parse_message (date_tp ctx + off) ss False ctx data []"
    by (auto simp: clear_before_flush_def)
  have "parse_message (date_tp ctx + off) ss False ctx data [] =
     (case player_left (date_tp ctx + off) name ctx data of
        (b, ctx', data', out') \<Rightarrow> ret True (False \<or> b) ctx' data' ([] @ out'))"
    using h by (intro parse_message_left [OF ss]) simp_all
  then show "parse_line scr text ctx data False =
           (\<lparr>read_valid_line = True, player_join_left = False\<rparr>,
            ctx\<lparr>player_info := player_info ctx @ [(name, \<lparr>uuid = None, join_time = None\<rparr>)]\<rparr>,
            data, [Error_uuid_not_found name (cur_filename ctx) (line ctx)])"
    unfolding pl by (simp add: handler ret_def)
qed

text \<open>
  C3 (as the code has it). While \<open>server_stopped\<close> is true, a recognised line
  \<open><name> joined the game\<close> or \<open><name> left the game\<close> is not applied: \<open>parse_line\<close>
  returns \<open>read_valid_line = true\<close> and leaves context, store and output as the flush of
  \<open>clear_before\<close> left them, and untouched without \<open>clear_before\<close>.
\<close>

theorem stopped_server_ignores_join_and_leave:
  assumes msg: "message_of scr text = Some (off, CHR '' '' # name @ body)"
    and word: "is_word name"
    and body: "body = '' joined the game'' \<or> body = '' left the game''"
    and stopped: "server_stopped ctx"
    and flush: "clear_before_flush cb ctx data (date_tp ctx + off) = (pc, ctx1, data1, out1)"
  shows "parse_line scr text ctx data cb = (\<lparr>read_valid_line = True, player_join_left = pc\<rparr>, ctx1, data1, out1)
    \<and> (\<not> cb \<longrightarrow> parse_line scr text ctx data cb
          = (\<lparr>read_valid_line = True, player_join_left = False\<rparr>, ctx, data, []))"
proof -
  note f = clear_before_flush_result [OF flush]
  have s1: "server_stopped ctx1" using stopped by (simp add: f(1))
  from parse_line_recognised [OF msg, of ctx data cb] flush
  obtain ss where ss: "good ss" "rest ss = CHR '' '' # name @ body"
    and pl: "parse_line scr text ctx data cb = parse_message (date_tp ctx + off) ss pc ctx1 data1 out1"
    by auto
  have 1: "parse_line scr text ctx data cb = (\<lparr>read_valid_line = True, player_join_left = pc\<rparr>, ctx1, data1, out1)"
    unfolding pl by (simp add: parse_message_stopped [OF ss word body s1] ret_def)
  moreover have "\<not> cb \<Longrightarrow> ctx1 = ctx \<and> data1 = data \<and> out1 = [] \<and> \<not> pc"
    using f by simp
  ultimately show ?thesis by (cases cb) simp_all
qed

section \<open>Runs of the parser on small logs\<close>



text \<open>The order of the visit shows in the store: two names of one identity are online,
  and the container that visits \<open>Rob\<close> first files his name and his session first.\<close>

definition two_names :: "(string list \<Rightarrow> string \<Rightarrow> nat) \<Rightarrow> parse_ctx_t" where
  "two_names h = (new_ctx h)\<lparr>player_info :=
     [(''Bob'', \<lparr>uuid = Some bob, join_time = Some 1000000000\<rparr>),
      (''Rob'', \<lparr>uuid = Some bob, join_time = Some 2000000000\<rparr>)]\<rparr>"

lemma visiting_order_shows_in_store:
  "fst (snd (snd (clear_all_players False (two_names (\<lambda>keys name. 0)) Map.empty 3000000000)))
     = [bob \<mapsto> ([''Bob'', ''Rob''], [(1000000000, 2000000000), (2000000000, 1000000000)], 3000000000)]"
  "fst (snd (snd (clear_all_players False (two_names (\<lambda>keys name. if name = ''Rob'' then 0 else 1))
       Map.empty 3000000000)))
     = [bob \<mapsto> ([''Rob'', ''Bob''], [(2000000000, 1000000000), (1000000000, 2000000000)], 3000000000)]"
  by (simp_all add: two_names_def new_ctx_def line_defs)




definition join_line :: string where
  "join_line = ''[10:00:00] [Server thread/INFO]: Bob joined the game''"

definition leave_line :: string where
  "leave_line = ''[11:00:00] [Server thread/INFO]: Bob left the game''"

definition known_bob :: parse_ctx_t where
  "known_bob = empty_ctx\<lparr>player_info := [(''Bob'', \<lparr>uuid = Some bob, join_time = None\<rparr>)]\<rparr>"

lemma message_of_join_line: "message_of True join_line = Some (36000000000000, CHR '' '' # ''Bob'' @ '' joined the game'')"
  by (simp add: message_of_def join_line_def stream_defs)

lemma message_of_leave_line: "message_of True leave_line = Some (39600000000000, CHR '' '' # ''Bob'' @ '' left the game'')"
  by (simp add: message_of_def leave_line_def stream_defs)

lemma is_word_Bob: "is_word ''Bob''"
  by (simp add: is_word_def isspace_def)

theorem leave_without_join_is_rejected_witness:
  "message_of True leave_line = Some (39600000000000, CHR '' '' # ''Bob'' @ '' left the game'')
   \<and> is_word ''Bob'' \<and> \<not> server_stopped empty_ctx
   \<and> uuid (info_at (player_info empty_ctx) ''Bob'') = None
   \<and> fst (snd (snd (parse_line True leave_line empty_ctx Map.empty False))) = Map.empty
   \<and> read_valid_line (fst (parse_line True leave_line empty_ctx Map.empty False))
   \<and> snd (snd (snd (parse_line True leave_line empty_ctx Map.empty False))) = [Error_uuid_not_found ''Bob'' [] 0]"
proof -
  have running: "\<not> server_stopped empty_ctx" by (simp add: empty_ctx_def new_ctx_def)
  have missing: "uuid (info_at (player_info empty_ctx) ''Bob'') = None
      \<or> join_time (info_at (player_info empty_ctx) ''Bob'') = None"
    by (simp add: empty_ctx_def new_ctx_def info_at_def)
  have flush: "clear_before_flush False empty_ctx Map.empty (date_tp empty_ctx + 39600000000000)
      = (False, empty_ctx, Map.empty, [])"
    by (simp add: clear_before_flush_def)
  have run: "parse_line True leave_line empty_ctx Map.empty False =
      (fst (parse_line True leave_line empty_ctx Map.empty False),
       fst (snd (parse_line True leave_line empty_ctx Map.empty False)),
       fst (snd (snd (parse_line True leave_line empty_ctx Map.empty False))),
       snd (snd (snd (parse_line True leave_line empty_ctx Map.empty False))))"
    by simp
  from leave_without_join_is_rejected [OF message_of_leave_line is_word_Bob running missing flush run]
    message_of_leave_line is_word_Bob running
  show ?thesis by (simp add: empty_ctx_def new_ctx_def info_at_def)
qed

text \<open>C4 as stated fails: after \<open>Stopping server\<close> a leave line of a name without
  identity or join instant writes no message at all.\<close>

definition stop_then_leave_log :: string where
  "stop_then_leave_log =
     ''[10:59:59] [Server thread/INFO]: Stopping server'' @ [CHR 0x0A]
     @ ''[11:00:00] [Server thread/INFO]: Bob left the game''"

theorem leave_after_stop_is_silent:
  "uuid (info_at (player_info empty_ctx) ''Bob'') = None
   \<and> parse_lines stop_then_leave_log empty_ctx Map.empty
       = (False, empty_ctx\<lparr>server_stopped := True\<rparr>, Map.empty, [])"
  by (simp add: parse_lines_def stop_then_leave_log_def parse_lines_loop.simps find_char_def empty_ctx_def new_ctx_def
      stream_defs line_defs Let_def)

theorem leave_of_unknown_name_inserts_entry_witness:
  "''Bob'' \<notin> fst ` set (player_info empty_ctx)
   \<and> message_of True leave_line = Some (39600000000000, CHR '' '' # ''Bob'' @ '' left the game'')
   \<and> is_word ''Bob'' \<and> \<not> server_stopped empty_ctx
   \<and> parse_line True leave_line empty_ctx Map.empty False =
        (\<lparr>read_valid_line = True, player_join_left = False\<rparr>,
         empty_ctx\<lparr>player_info := [(''Bob'', \<lparr>uuid = None, join_time = None\<rparr>)]\<rparr>,
         Map.empty, [Error_uuid_not_found ''Bob'' [] 0])"
proof -
  have running: "\<not> server_stopped empty_ctx" by (simp add: empty_ctx_def new_ctx_def)
  have unknown: "''Bob'' \<notin> fst ` set (player_info empty_ctx)"
    by (simp add: empty_ctx_def new_ctx_def)
  from leave_of_unknown_name_inserts_entry [OF unknown, of 39600000000000 Map.empty True leave_line 39600000000000]
    message_of_leave_line is_word_Bob running unknown
  show ?thesis by (simp add: empty_ctx_def new_ctx_def)
qed

text \<open>C10 as stated fails in the Stopped state: the leave line of a name without an entry
  returns before it reaches the leave handler, and the map stays as it is.\<close>

theorem stopped_leave_inserts_nothing:
  "''Bob'' \<notin> fst ` set (player_info (empty_ctx\<lparr>server_stopped := True\<rparr>))
   \<and> parse_line True leave_line (empty_ctx\<lparr>server_stopped := True\<rparr>) Map.empty False
       = (\<lparr>read_valid_line = True, player_join_left = False\<rparr>, empty_ctx\<lparr>server_stopped := True\<rparr>,
          Map.empty, [])"
  by (simp add: leave_line_def empty_ctx_def new_ctx_def stream_defs line_defs Let_def)

theorem stopped_server_ignores_join_and_leave_witness:
  "message_of True join_line = Some (36000000000000, CHR '' '' # ''Bob'' @ '' joined the game'')
   \<and> is_word ''Bob'' \<and> server_stopped (known_bob\<lparr>server_stopped := True\<rparr>)
   \<and> parse_line True join_line (known_bob\<lparr>server_stopped := True\<rparr>) Map.empty False
       = (\<lparr>read_valid_line = True, player_join_left = False\<rparr>, known_bob\<lparr>server_stopped := True\<rparr>, Map.empty, [])"
proof -
  have stopped: "server_stopped (known_bob\<lparr>server_stopped := True\<rparr>)" by simp
  have flush: "clear_before_flush False (known_bob\<lparr>server_stopped := True\<rparr>) Map.empty
      (date_tp (known_bob\<lparr>server_stopped := True\<rparr>) + 36000000000000)
      = (False, known_bob\<lparr>server_stopped := True\<rparr>, Map.empty, [])"
    by (simp add: clear_before_flush_def)
  from stopped_server_ignores_join_and_leave [OF message_of_join_line is_word_Bob _ stopped flush]
    message_of_join_line is_word_Bob
  show ?thesis by simp
qed

text \<open>C3 as stated fails: the same join line marks Bob online while the server runs and
  changes nothing while it is stopped.\<close>

theorem stopped_join_is_not_applied:
  "player_info (fst (snd (parse_line True join_line known_bob Map.empty False)))
     = [(''Bob'', \<lparr>uuid = Some bob, join_time = Some 36000000000000\<rparr>)]
   \<and> player_info (fst (snd (parse_line True join_line (known_bob\<lparr>server_stopped := True\<rparr>) Map.empty False)))
     = [(''Bob'', \<lparr>uuid = Some bob, join_time = None\<rparr>)]"
  by (simp add: join_line_def known_bob_def empty_ctx_def new_ctx_def stream_defs line_defs Let_def)

section \<open>The duration of a session\<close>

text \<open>A session of identity \<open>u\<close> that closes at \<open>leave_time\<close> an entry of the context:
  it starts at the join instant of an entry with that identity, and its duration is the
  leave instant minus the join instant.\<close>

definition closes_at :: "time_point \<Rightarrow> parse_ctx_t \<Rightarrow> uuid_t \<Rightarrow> play_session \<Rightarrow> bool" where
  "closes_at leave_time ctx u s =
     (snd s = leave_time - fst s
      \<and> (\<exists>(n, i) \<in> set (player_info ctx). uuid i = Some u \<and> join_time i = Some (fst s)))"

lemma closes_at_frame [simp]:
  "closes_at t (ctx\<lparr>server_stopped := b\<rparr>) u s = closes_at t ctx u s"
  by (simp add: closes_at_def)

lemma flush_new_sessions:
  assumes "clear_all_players w ctx data t = (any, ctx', data', out)"
  shows "\<exists>new. sessions_of data' u = sessions_of data u @ new \<and> (\<forall>s \<in> set new. closes_at t ctx u s)"
proof -
  have "sessions_of data' u = sessions_of data u @ flush_sessions t (visited ctx) u"
    by (rule clear_all_players_result(2) [OF assms])
  moreover have "\<forall>s \<in> set (flush_sessions t (visited ctx) u). closes_at t ctx u s"
  proof
    fix s assume "s \<in> set (flush_sessions t (visited ctx) u)"
    then have "(fst s, snd s) \<in> set (flush_sessions t (visited ctx) u)" by simp
    from flush_sessions_origin [OF this] show "closes_at t ctx u s"
      by (auto simp: closes_at_def set_visited)
  qed
  ultimately show ?thesis by blast
qed

lemma info_at_member:
  "join_time (info_at es n) = Some j \<Longrightarrow> (n, info_at es n) \<in> set es"
  by (auto simp: info_at_def split: option.splits dest: map_of_SomeD)

lemma left_new_sessions:
  assumes "player_left t n ctx data = (b, ctx', data', out)"
  shows "\<exists>new. sessions_of data' u = sessions_of data u @ new \<and> (\<forall>s \<in> set new. closes_at t ctx u s)"
proof (cases "uuid (info_at (player_info ctx) n)")
  case None
  with assms have "data' = data" by (simp add: player_left_def Let_def)
  then show ?thesis by simp
next
  case (Some v)
  show ?thesis
  proof (cases "join_time (info_at (player_info ctx) n)")
    case None
    with assms Some have "data' = data" by (simp add: player_left_def Let_def)
    then show ?thesis by simp
  next
    case (Some j)
    with assms \<open>uuid (info_at (player_info ctx) n) = Some v\<close>
    have d: "data' = add_session data v n j t" by (simp add: player_left_def Let_def)
    have m: "(n, info_at (player_info ctx) n) \<in> set (player_info ctx)"
      using Some by (rule info_at_member)
    show ?thesis
    proof (cases "u = v")
      case True
      have "closes_at t ctx u (j, t - j)"
        using m Some \<open>uuid (info_at (player_info ctx) n) = Some v\<close> True
        by (auto simp: closes_at_def)
      then show ?thesis using d True by (simp add: sessions_of_add_session)
    next
      case False
      then show ?thesis using d by (simp add: sessions_of_add_session)
    qed
  qed
qed

lemma message_new_sessions:
  assumes run: "parse_message t ss pc ctx data out = (res, ctx', data', out')"
  shows "\<exists>new. sessions_of data' u = sessions_of data u @ new \<and> (\<forall>s \<in> set new. closes_at t ctx u s)"
proof -
  have "\<exists>o'. out' = out @ o' \<and>
      (\<exists>new. sessions_of data' u = sessions_of data u @ new \<and> (\<forall>s \<in> set new. closes_at t ctx u s))"
  proof (rule parse_message_effects [OF run,
        where Q = "\<lambda>c d o'. \<exists>new. sessions_of d u = sessions_of data u @ new \<and> (\<forall>s \<in> set new. closes_at t ctx u s)"])
    show "\<exists>new. sessions_of data u = sessions_of data u @ new \<and> (\<forall>s \<in> set new. closes_at t ctx u s)"
      by simp
    then show "\<exists>new. sessions_of data u = sessions_of data u @ new \<and> (\<forall>s \<in> set new. closes_at t ctx u s)" .
  next
    fix a c d o' assume "clear_all_players False ctx data t = (a, c, d, o')"
    then show "\<exists>new. sessions_of d u = sessions_of data u @ new \<and> (\<forall>s \<in> set new. closes_at t ctx u s)"
      by (rule flush_new_sessions)
  next
    fix n b c d o' assume "player_left t n ctx data = (b, c, d, o')"
    then show "\<exists>new. sessions_of d u = sessions_of data u @ new \<and> (\<forall>s \<in> set new. closes_at t ctx u s)"
      by (rule left_new_sessions)
  qed simp_all
  then show ?thesis by blast
qed








text \<open>The difference also wraps around: a flush on 2100-01-01 of a player who joined on
  1700-01-01 records a negative duration although the leave instant is the later one.\<close>

definition joined_in_1700 :: parse_ctx_t where
  "joined_in_1700 = empty_ctx\<lparr>player_info :=
     [(''Bob'', \<lparr>uuid = Some bob, join_time = date_from_file_name ''1700-01-01-1.log''\<rparr>)]\<rparr>"

lemma dates_1700_2100:
  "date_from_file_name ''1700-01-01-1.log'' = Some (- 8520336000000000000)"
  "date_from_file_name ''2100-01-01-1.log'' = Some 4102444800000000000"
  by (simp_all add: date_from_file_name_def days_from_civil_def last_day_of_month_def is_leap_def
      read_unsigned_def expect_def is_digit_def digits_value_def)

lemma long_session_wraps_around:
  "sessions_of (fst (snd (snd (clear_all_players False joined_in_1700 Map.empty 4102444800000000000)))) bob
     = [(- 8520336000000000000, - 5823963273709551616)]
   \<and> sint (- 8520336000000000000 :: time_point) < sint (4102444800000000000 :: time_point)
   \<and> sint (- 5823963273709551616 :: duration) < 0"
  by (simp add: joined_in_1700_def dates_1700_2100 empty_ctx_def new_ctx_def line_defs sessions_of_def)

definition bob_online :: parse_ctx_t where
  "bob_online = empty_ctx\<lparr>player_info := [(''Bob'', \<lparr>uuid = Some bob, join_time = Some 36000000000000\<rparr>)]\<rparr>"


lemma clear_bob_online:
  "clear_all_players False bob_online Map.empty 39600000000000 =
     (True, empty_ctx\<lparr>player_info := [(''Bob'', \<lparr>uuid = Some bob, join_time = None\<rparr>)]\<rparr>,
      [bob \<mapsto> ([''Bob''], [(36000000000000, 3600000000000)], 3600000000000)], [])"
  by (simp add: bob_online_def empty_ctx_def new_ctx_def line_defs)


section \<open>Lines one at a time and lines in chunks\<close>

text \<open>The state that both ways of feeding thread: whether players have changed, the
  context, the data and the output.\<close>

type_synonym feed_state = "bool \<times> parse_ctx_t \<times> log_data_t \<times> message list"

text \<open>One call of \<open>parse_line\<close> for each line, with its default arguments.\<close>

fun feed_lines :: "string list \<Rightarrow> feed_state \<Rightarrow> feed_state" where
  "feed_lines [] st = st"
| "feed_lines (l # ls) (pc, ctx, data, out) =
     (case parse_line True l ctx data False of
        (res, ctx', data', out') \<Rightarrow> feed_lines ls (pc \<or> player_join_left res, ctx', data', out @ out'))"

text \<open>One call of \<open>parse_lines\<close> for each chunk.\<close>

fun feed_chunks :: "string list \<Rightarrow> feed_state \<Rightarrow> feed_state" where
  "feed_chunks [] st = st"
| "feed_chunks (c # cs) (pc, ctx, data, out) =
     (case parse_lines c ctx data of
        (b, ctx', data', out') \<Rightarrow> feed_chunks cs (pc \<or> b, ctx', data', out @ out'))"

text \<open>
  The text of a chunk that holds the given lines: a line feed stands between two lines
  and none after the last one. A chunk that ends with a line feed is a chunk whose last
  line is empty; a chunk whose last line is not empty ends without a line feed, as the
  last line of a file may. Every text is the text of such a chunk in exactly this way:
  its lines are the pieces between its line feeds.
\<close>

fun join_lines :: "string list \<Rightarrow> string" where
  "join_lines [] = []"
| "join_lines [l] = l"
| "join_lines (l # l' # ls) = l @ CHR 0x0A # join_lines (l' # ls)"

lemma every_text_is_joined_lines:
  "\<exists>ls. ls \<noteq> [] \<and> (\<forall>l \<in> set ls. CHR 0x0A \<notin> set l) \<and> join_lines ls = c"
proof (induction c)
  case Nil
  have "[[]] \<noteq> [] \<and> (\<forall>l \<in> set [[]]. CHR 0x0A \<notin> set l) \<and> join_lines [[]] = ([] :: string)"
    by simp
  then show ?case by blast
next
  case (Cons x c)
  then obtain l ls where ls: "\<forall>l \<in> set (l # ls). CHR 0x0A \<notin> set l" "join_lines (l # ls) = c"
    by (metis list.exhaust)
  show ?case
  proof (cases "x = CHR 0x0A")
    case True
    have "[] # l # ls \<noteq> [] \<and> (\<forall>l \<in> set ([] # l # ls). CHR 0x0A \<notin> set l)
        \<and> join_lines ([] # l # ls) = x # c"
      using ls True by simp
    then show ?thesis by blast
  next
    case False
    have "join_lines ((x # l) # ls) = x # join_lines (l # ls)"
      by (cases ls) simp_all
    then have "(x # l) # ls \<noteq> [] \<and> (\<forall>l \<in> set ((x # l) # ls). CHR 0x0A \<notin> set l)
        \<and> join_lines ((x # l) # ls) = x # c"
      using ls False by simp
    then show ?thesis by blast
  qed
qed

lemma parse_line_empty: "parse_line True [] ctx data False = ret False False ctx data []"
  by (simp add: parse_line_def stream_defs)

lemma find_char_at_end: "find_char pre c (length pre) = None"
  by (simp add: find_char_def)

lemma find_char_last_line: "c \<notin> set l \<Longrightarrow> find_char (pre @ l) c (length pre) = None"
  by (simp add: find_char_def)

lemma find_char_line:
  "c \<notin> set l \<Longrightarrow> find_char (pre @ l @ c # r) c (length pre) = Some (length pre + length l)"
proof -
  assume "c \<notin> set l"
  then have "takeWhile (\<lambda>x. x \<noteq> c) (l @ c # r) = l"
    by (induction l) auto
  then show ?thesis by (simp add: find_char_def)
qed

text \<open>The loop of \<open>parse_lines\<close> calls \<open>parse_line\<close> for each line of the chunk, the one
  after the last line feed included.\<close>

lemma loop_over_lines:
  assumes "\<forall>l \<in> set ls. CHR 0x0A \<notin> set l"
  shows "parse_lines_loop (pre @ join_lines ls) (length pre) pc ctx data out
           = feed_lines ls (pc, ctx, data, out)"
  using assms
proof (induction ls arbitrary: pre pc ctx data out rule: join_lines.induct)
  case 1
  show ?case
    by (subst parse_lines_loop.simps)
       (simp add: find_char_at_end parse_line_empty ret_def)
next
  case (2 l)
  then have nl: "CHR 0x0A \<notin> set l" by simp
  show ?case
    by (subst parse_lines_loop.simps)
       (simp add: find_char_last_line [OF nl] split: prod.splits)
next
  case (3 l l' ls)
  have nl: "CHR 0x0A \<notin> set l" and rest: "\<forall>l \<in> set (l' # ls). CHR 0x0A \<notin> set l"
    using "3.prems" by simp_all
  let ?r = "join_lines (l' # ls)"
  have shape: "pre @ join_lines (l # l' # ls) = pre @ l @ CHR 0x0A # ?r"
    by simp
  have shape': "pre @ l @ CHR 0x0A # ?r = (pre @ l @ [CHR 0x0A]) @ ?r"
    by simp
  have f: "find_char (pre @ l @ CHR 0x0A # ?r) CHR 0x0A (length pre) = Some (length pre + length l)"
    by (rule find_char_line [OF nl])
  obtain res c1 d1 o1 where pl: "parse_line True l ctx data False = (res, c1, d1, o1)"
    by (rule prod_cases4)
  have "parse_lines_loop (pre @ join_lines (l # l' # ls)) (length pre) pc ctx data out
      = parse_lines_loop (pre @ l @ CHR 0x0A # ?r) (length pre + length l + 1)
          (pc \<or> player_join_left res) c1 d1 (out @ o1)"
    unfolding shape by (subst parse_lines_loop.simps) (simp add: f pl)
  also have "\<dots> = parse_lines_loop ((pre @ l @ [CHR 0x0A]) @ ?r) (length (pre @ l @ [CHR 0x0A]))
          (pc \<or> player_join_left res) c1 d1 (out @ o1)"
    unfolding shape' by simp
  also have "\<dots> = feed_lines (l' # ls) (pc \<or> player_join_left res, c1, d1, out @ o1)"
    by (rule "3.IH" [OF rest])
  also have "\<dots> = feed_lines (l # l' # ls) (pc, ctx, data, out)"
    by (simp add: pl)
  finally show ?case .
qed

lemma feed_lines_accumulates:
  "feed_lines ls (pc, ctx, data, out) =
     (case feed_lines ls (False, ctx, data, []) of
        (b, ctx', data', out') \<Rightarrow> (pc \<or> b, ctx', data', out @ out'))"
proof (induction ls arbitrary: pc ctx data out)
  case Nil
  show ?case by simp
next
  case (Cons l ls)
  obtain res c1 d1 o1 where pl: "parse_line True l ctx data False = (res, c1, d1, o1)"
    by (rule prod_cases4)
  obtain b c2 d2 o2 where r: "feed_lines ls (False, c1, d1, []) = (b, c2, d2, o2)"
    by (rule prod_cases4)
  have "feed_lines (l # ls) (pc, ctx, data, out) = (pc \<or> player_join_left res \<or> b, c2, d2, out @ o1 @ o2)"
    using Cons.IH [of "pc \<or> player_join_left res" c1 d1 "out @ o1"] r by (simp add: pl)
  moreover have "feed_lines (l # ls) (False, ctx, data, []) = (player_join_left res \<or> b, c2, d2, o1 @ o2)"
    using Cons.IH [of "player_join_left res" c1 d1 o1] r by (simp add: pl)
  ultimately show ?case by simp
qed

lemma parse_lines_chunk:
  assumes "\<forall>l \<in> set ls. CHR 0x0A \<notin> set l"
  shows "parse_lines (join_lines ls) ctx data = feed_lines ls (False, ctx, data, [])"
  using loop_over_lines [OF assms, of "[]" False ctx data "[]"] by (simp add: parse_lines_def)

lemma feed_lines_append: "feed_lines (xs @ ys) st = feed_lines ys (feed_lines xs st)"
proof (induction xs arbitrary: st)
  case Nil
  show ?case by simp
next
  case (Cons x xs)
  obtain pc ctx data out where st: "st = (pc, ctx, data, out)" by (rule prod_cases4)
  show ?case unfolding st by (simp add: Cons.IH split: prod.splits)
qed

text \<open>An empty line changes nothing.\<close>

lemma feed_lines_without_empty: "feed_lines (filter (\<lambda>l. l \<noteq> []) ls) st = feed_lines ls st"
proof (induction ls arbitrary: st)
  case Nil
  show ?case by simp
next
  case (Cons l ls)
  obtain pc ctx data out where st: "st = (pc, ctx, data, out)" by (rule prod_cases4)
  show ?case
  proof (cases "l = []")
    case True
    then show ?thesis unfolding st by (simp add: Cons.IH parse_line_empty ret_def)
  next
    case False
    then show ?thesis unfolding st by (simp add: Cons.IH split: prod.splits)
  qed
qed

text \<open>
  C7. Lines that contain no line feed are grouped into chunks in any way; the text of a
  chunk has its lines with a line feed between two of them, so that chunks are cut only
  where a line ends, with the line feed of the last line (an empty line closes the chunk)
  or, as at the end of a file, without it. Feeding the lines to \<open>parse_line\<close> one at a
  time and feeding the chunks to \<open>parse_lines\<close> give the same store and the same final
  context (and the same output and changed-flag), from the same initial context and
  store; the empty lines have no part in it.
\<close>

theorem chunks_equal_single_lines:
  assumes "\<forall>l \<in> set (concat chunks). CHR 0x0A \<notin> set l"
  shows "feed_chunks (map join_lines chunks) st = feed_lines (concat chunks) st
     \<and> feed_lines (concat chunks) st = feed_lines (filter (\<lambda>l. l \<noteq> []) (concat chunks)) st"
proof
  show "feed_chunks (map join_lines chunks) st = feed_lines (concat chunks) st"
    using assms
  proof (induction chunks arbitrary: st)
    case Nil
    show ?case by simp
  next
    case (Cons ch chunks)
    obtain pc ctx data out where st: "st = (pc, ctx, data, out)" by (rule prod_cases4)
    have ch: "\<forall>l \<in> set ch. CHR 0x0A \<notin> set l" and rest: "\<forall>l \<in> set (concat chunks). CHR 0x0A \<notin> set l"
      using Cons.prems by auto
    obtain b c1 d1 o1 where r: "feed_lines ch (False, ctx, data, []) = (b, c1, d1, o1)"
      by (rule prod_cases4)
    have one: "feed_lines ch (pc, ctx, data, out) = (pc \<or> b, c1, d1, out @ o1)"
      using feed_lines_accumulates [of ch pc ctx data out] r by simp
    have "feed_chunks (map join_lines (ch # chunks)) st
        = feed_chunks (map join_lines chunks) (pc \<or> b, c1, d1, out @ o1)"
      unfolding st by (simp add: parse_lines_chunk [OF ch] r)
    also have "\<dots> = feed_lines (concat chunks) (pc \<or> b, c1, d1, out @ o1)"
      by (rule Cons.IH [OF rest])
    also have "\<dots> = feed_lines (concat (ch # chunks)) st"
      unfolding st by (simp add: feed_lines_append one)
    finally show ?case .
  qed
  show "feed_lines (concat chunks) st = feed_lines (filter (\<lambda>l. l \<noteq> []) (concat chunks)) st"
    by (rule feed_lines_without_empty [symmetric])
qed

definition uuid_line :: string where
  "uuid_line = ''[09:59:58] [User Authenticator #1/INFO]: UUID of player Bob is 01234567-89ab-cdef-0123-456789abcdef''"

lemma no_line_feed:
  "CHR 0x0A \<notin> set uuid_line" "CHR 0x0A \<notin> set join_line" "CHR 0x0A \<notin> set leave_line"
  by (simp_all add: uuid_line_def join_line_def leave_line_def)

lemma feed_lines_day:
  "feed_lines [uuid_line, join_line, leave_line] (False, empty_ctx, Map.empty, []) =
     (True, empty_ctx\<lparr>player_info := [(''Bob'', \<lparr>uuid = Some bob, join_time = None\<rparr>)]\<rparr>,
      [bob \<mapsto> ([''Bob''], [(36000000000000, 3600000000000)], 3600000000000)], [])"
  by (simp add: uuid_line_def join_line_def leave_line_def empty_ctx_def new_ctx_def bob_def
      stream_defs line_defs Let_def)

text \<open>The first chunk ends with the line feed of the join line, the second one with the
  leave line and no line feed.\<close>

theorem chunks_equal_single_lines_witness:
  "CHR 0x0A \<notin> set uuid_line \<and> CHR 0x0A \<notin> set join_line \<and> CHR 0x0A \<notin> set leave_line
   \<and> map join_lines [[uuid_line, join_line, []], [leave_line]]
       = [uuid_line @ [CHR 0x0A] @ join_line @ [CHR 0x0A], leave_line]
   \<and> feed_chunks [uuid_line @ [CHR 0x0A] @ join_line @ [CHR 0x0A], leave_line]
         (False, empty_ctx, Map.empty, [])
       = (True, empty_ctx\<lparr>player_info := [(''Bob'', \<lparr>uuid = Some bob, join_time = None\<rparr>)]\<rparr>,
          [bob \<mapsto> ([''Bob''], [(36000000000000, 3600000000000)], 3600000000000)], [])"
proof -
  have h: "\<forall>l \<in> set (concat [[uuid_line, join_line, []], [leave_line]]). CHR 0x0A \<notin> set l"
    using no_line_feed by simp
  have t: "map join_lines [[uuid_line, join_line, []], [leave_line]]
       = [uuid_line @ [CHR 0x0A] @ join_line @ [CHR 0x0A], leave_line]"
    by simp
  have f: "filter (\<lambda>l. l \<noteq> []) (concat [[uuid_line, join_line, []], [leave_line]])
       = [uuid_line, join_line, leave_line]"
    by (simp add: uuid_line_def join_line_def leave_line_def)
  from chunks_equal_single_lines [OF h, of "(False, empty_ctx, Map.empty, [])"]
  have "feed_chunks (map join_lines [[uuid_line, join_line, []], [leave_line]]) (False, empty_ctx, Map.empty, [])
      = feed_lines (filter (\<lambda>l. l \<noteq> []) (concat [[uuid_line, join_line, []], [leave_line]]))
          (False, empty_ctx, Map.empty, [])"
    by (elim conjE) (erule trans)
  then have r: "feed_chunks [uuid_line @ [CHR 0x0A] @ join_line @ [CHR 0x0A], leave_line]
         (False, empty_ctx, Map.empty, [])
       = (True, empty_ctx\<lparr>player_info := [(''Bob'', \<lparr>uuid = Some bob, join_time = None\<rparr>)]\<rparr>,
          [bob \<mapsto> ([''Bob''], [(36000000000000, 3600000000000)], 3600000000000)], [])"
    by (simp only: t f feed_lines_day)
  from no_line_feed t r show ?thesis by (intro conjI)
qed

section \<open>The names of the files that are read\<close>

text \<open>The shape of an archive name in words: a date of 4, 2 and 2 digits, a sequence number
  of at least one digit, each followed by a dash or, for the number, by the ending.\<close>

definition dated_name :: "string \<Rightarrow> string \<Rightarrow> bool" where
  "dated_name name ending =
     (\<exists>y m d n. length y = 4 \<and> length m = 2 \<and> length d = 2 \<and> n \<noteq> []
        \<and> list_all is_digit y \<and> list_all is_digit m \<and> list_all is_digit d \<and> list_all is_digit n
        \<and> name = y @ ''-'' @ m @ ''-'' @ d @ ''-'' @ n @ ending)"

definition archive_name :: "string \<Rightarrow> bool" where
  "archive_name name = (dated_name name ''.log'' \<or> dated_name name ''.log.gz'')"

lemma skip_digits_drop:
  "i \<le> length s \<Longrightarrow> drop (skip_digits s i) s = dropWhile is_digit (drop i s)"
proof (induction s i rule: skip_digits.induct)
  case (1 p_str ind)
  show ?case
  proof (cases "is_digit (char_at p_str ind)")
    case True
    then have lt: "ind < length p_str" by (rule digit_in_range)
    then have d: "drop ind p_str = p_str ! ind # drop (ind + 1) p_str"
      by (simp add: Cons_nth_drop_Suc)
    have "drop (skip_digits p_str ind) p_str = drop (skip_digits p_str (ind + 1)) p_str"
      using True by (subst skip_digits.simps) simp
    also have "\<dots> = dropWhile is_digit (drop (ind + 1) p_str)"
      using "1.IH" [OF True] lt by simp
    also have "\<dots> = dropWhile is_digit (drop ind p_str)"
      using True lt by (simp add: d char_at_def)
    finally show ?thesis .
  next
    case False
    then have s: "skip_digits p_str ind = ind"
      by (subst skip_digits.simps) simp
    show ?thesis
    proof (cases "ind < length p_str")
      case True
      then have d: "drop ind p_str = p_str ! ind # drop (ind + 1) p_str"
        by (simp add: Cons_nth_drop_Suc)
      with False True show ?thesis by (simp add: s char_at_def)
    next
      case False
      then show ?thesis by (simp add: s)
    qed
  qed
qed

lemma not_digit_zero: "\<not> is_digit (CHR 0x00)"
  by (simp add: is_digit_def)

lemma erase_short:
  assumes "length name < 12"
  shows "erase_if_pred skip (name, gz) = (\<not> (\<not> skip \<and> name = ''latest.log''))"
proof -
  have "\<not> is_digit (char_at name 11)"
    using assms by (simp add: char_at_def not_digit_zero)
  then show ?thesis by (simp add: erase_if_pred_def)
qed

lemma list_of_twelve:
  "length xs = 12 \<Longrightarrow> \<exists>c0 c1 c2 c3 c4 c5 c6 c7 c8 c9 c10 c11. xs = [c0, c1, c2, c3, c4, c5, c6, c7, c8, c9, c10, c11]"
  by (auto simp: eval_nat_numeral length_Suc_conv)

lemma twelve_chars:
  assumes "12 \<le> length name"
  obtains c0 c1 c2 c3 c4 c5 c6 c7 c8 c9 c10 c11 r
  where "name = c0 # c1 # c2 # c3 # c4 # c5 # c6 # c7 # c8 # c9 # c10 # c11 # r"
proof -
  have split: "name = take 12 name @ drop 12 name" by simp
  have "length (take 12 name) = 12" using assms by simp
  from list_of_twelve [OF this] obtain c0 c1 c2 c3 c4 c5 c6 c7 c8 c9 c10 c11
    where "take 12 name = [c0, c1, c2, c3, c4, c5, c6, c7, c8, c9, c10, c11]"
    by blast
  with split have "name = [c0, c1, c2, c3, c4, c5, c6, c7, c8, c9, c10, c11] @ drop 12 name"
    by simp
  then have "name = c0 # c1 # c2 # c3 # c4 # c5 # c6 # c7 # c8 # c9 # c10 # c11 # drop 12 name"
    by simp
  then show ?thesis by (rule that)
qed

lemma erase_long:
  "erase_if_pred skip (c0 # c1 # c2 # c3 # c4 # c5 # c6 # c7 # c8 # c9 # c10 # c11 # r, gz) =
     (\<not> (is_digit c0 \<and> is_digit c1 \<and> is_digit c2 \<and> is_digit c3 \<and> is_digit c5 \<and> is_digit c6
         \<and> is_digit c8 \<and> is_digit c9 \<and> is_digit c11
         \<and> c4 = CHR ''-'' \<and> c7 = CHR ''-'' \<and> c10 = CHR ''-''
         \<and> dropWhile is_digit r = (if gz then ''.log.gz'' else ''.log'')))"
proof -
  let ?name = "c0 # c1 # c2 # c3 # c4 # c5 # c6 # c7 # c8 # c9 # c10 # c11 # r"
  have d: "drop (skip_digits ?name 12) ?name = dropWhile is_digit r"
    using skip_digits_drop [of 12 ?name] by simp
  have at: "char_at ?name 0 = c0" "char_at ?name (Suc 0) = c1" "char_at ?name 2 = c2" "char_at ?name 3 = c3"
    "char_at ?name 4 = c4" "char_at ?name 5 = c5" "char_at ?name 6 = c6" "char_at ?name 7 = c7"
    "char_at ?name 8 = c8" "char_at ?name 9 = c9" "char_at ?name 10 = c10" "char_at ?name 11 = c11"
    by (simp_all add: char_at_def)
  have ne: "?name \<noteq> ''latest.log''" by simp
  show ?thesis
    unfolding erase_if_pred_def prod.case d by (auto simp: at)
qed

lemma dropWhile_digits_ending:
  "list_all is_digit n \<Longrightarrow> ending = ''.log'' \<or> ending = ''.log.gz'' \<Longrightarrow>
     dropWhile is_digit (n @ ending) = ending"
  by (induction n) (auto simp: is_digit_def)

lemma kept_iff_dated:
  "\<not> erase_if_pred skip (name, gz) \<longleftrightarrow>
     (\<not> skip \<and> name = ''latest.log'') \<or> dated_name name (if gz then ''.log.gz'' else ''.log'')"
proof (cases "length name < 12")
  case True
  have "\<not> dated_name name e" for e
    using True by (auto simp: dated_name_def neq_Nil_conv)
  with True show ?thesis by (simp add: erase_short)
next
  case False
  then have "12 \<le> length name" by simp
  then obtain c0 c1 c2 c3 c4 c5 c6 c7 c8 c9 c10 c11 r
    where name: "name = c0 # c1 # c2 # c3 # c4 # c5 # c6 # c7 # c8 # c9 # c10 # c11 # r"
    by (rule twelve_chars)
  let ?e = "if gz then ''.log.gz'' else ''.log''"
  have e: "?e = ''.log'' \<or> ?e = ''.log.gz''" by simp
  have nl: "name \<noteq> ''latest.log''" using name by simp
  have "dated_name name ?e \<longleftrightarrow>
      (is_digit c0 \<and> is_digit c1 \<and> is_digit c2 \<and> is_digit c3 \<and> is_digit c5 \<and> is_digit c6
         \<and> is_digit c8 \<and> is_digit c9 \<and> is_digit c11
         \<and> c4 = CHR ''-'' \<and> c7 = CHR ''-'' \<and> c10 = CHR ''-''
         \<and> dropWhile is_digit r = ?e)" (is "?L \<longleftrightarrow> ?R")
  proof
    assume ?L
    then obtain y m d n where yl: "length y = 4" and ml: "length m = 2" and dl: "length d = 2"
      and nn: "n \<noteq> []" and dig: "list_all is_digit y" "list_all is_digit m" "list_all is_digit d"
        "list_all is_digit n"
      and eq: "name = y @ ''-'' @ m @ ''-'' @ d @ ''-'' @ n @ ?e"
      unfolding dated_name_def by blast
    from yl obtain y0 y1 y2 y3 where y: "y = [y0, y1, y2, y3]"
      by (auto simp: eval_nat_numeral length_Suc_conv)
    from ml obtain m0 m1 where m: "m = [m0, m1]"
      by (auto simp: eval_nat_numeral length_Suc_conv)
    from dl obtain d0 d1 where d: "d = [d0, d1]"
      by (auto simp: eval_nat_numeral length_Suc_conv)
    from nn obtain n0 n' where n: "n = n0 # n'" by (cases n) auto
    from eq name have cs: "c0 = y0" "c1 = y1" "c2 = y2" "c3 = y3" "c4 = CHR ''-''" "c5 = m0" "c6 = m1"
      "c7 = CHR ''-''" "c8 = d0" "c9 = d1" "c10 = CHR ''-''" "c11 = n0" "r = n' @ ?e"
      unfolding y m d n by simp_all
    have "dropWhile is_digit (n' @ ?e) = ?e"
      using dig(4) e unfolding n by (intro dropWhile_digits_ending) simp_all
    with cs dig show ?R unfolding y m d n by simp
  next
    assume R: ?R
    let ?n = "c11 # takeWhile is_digit r"
    have r: "r = takeWhile is_digit r @ ?e"
      using R takeWhile_dropWhile_id [of is_digit r] by simp
    have "name = [c0, c1, c2, c3] @ ''-'' @ [c5, c6] @ ''-'' @ [c8, c9] @ ''-'' @ ?n @ ?e"
      unfolding name using R r by simp
    moreover have "list_all is_digit ?n"
      using R by (simp add: list_all_iff) (meson set_takeWhileD)
    ultimately show ?L
      unfolding dated_name_def using R
      by (intro exI [of _ "[c0, c1, c2, c3]"] exI [of _ "[c5, c6]"] exI [of _ "[c8, c9]"] exI [of _ ?n])
         simp
  qed
  then show ?thesis
    unfolding name [symmetric] using nl erase_long [of skip c0 c1 c2 c3 c4 c5 c6 c7 c8 c9 c10 c11 r gz]
    unfolding name [symmetric] by auto
qed

lemma extension_ending:
  assumes "pre \<noteq> []" "ending = ''.log'' \<or> ending = ''.gz''"
  shows "extension (pre @ ending) = ending"
proof -
  have dots: "dropWhile (\<lambda>c. c \<noteq> CHR ''.'') (rev (pre @ ending)) = CHR ''.'' # rev pre"
    using assms(2) by auto
  have ne: "pre @ ending \<noteq> ''.''" "pre @ ending \<noteq> ''..''"
    using assms by (auto simp: append_eq_Cons_conv)
  show ?thesis
    using assms ne by (auto simp: extension_def dots Let_def)
qed

lemma dated_name_extension:
  "dated_name name ''.log'' \<Longrightarrow> extension name = ''.log''"
  "dated_name name ''.log.gz'' \<Longrightarrow> extension name = ''.gz''"
proof -
  assume "dated_name name ''.log''"
  then obtain y m d n where "name = y @ ''-'' @ m @ ''-'' @ d @ ''-'' @ n @ ''.log''"
    unfolding dated_name_def by blast
  then have "name = (y @ ''-'' @ m @ ''-'' @ d @ ''-'' @ n) @ ''.log''"
    by simp
  then show "extension name = ''.log''"
    using extension_ending [of "y @ ''-'' @ m @ ''-'' @ d @ ''-'' @ n" "''.log''"]
    by simp
next
  assume "dated_name name ''.log.gz''"
  then obtain y m d n where "name = y @ ''-'' @ m @ ''-'' @ d @ ''-'' @ n @ ''.log.gz''"
    unfolding dated_name_def by blast
  then have "name = (y @ ''-'' @ m @ ''-'' @ d @ ''-'' @ n @ ''.log'') @ ''.gz''"
    by simp
  then show "extension name = ''.gz''"
    using extension_ending [of "y @ ''-'' @ m @ ''-'' @ d @ ''-'' @ n @ ''.log''" "''.gz''"]
    by simp
qed

lemma extension_latest: "extension ''latest.log'' = ''.log''"
  by (simp add: extension_def)

lemma in_list_paths:
  "(name, gz) \<in> set (list_paths skip entries) \<longleftrightarrow>
     (name, True) \<in> set entries \<and> (extension name = ''.gz'' \<or> extension name = ''.log'')
     \<and> gz = (extension name = ''.gz'') \<and> \<not> erase_if_pred skip (name, gz)"
  unfolding list_paths_def by (auto simp: image_iff)

text \<open>
  C8 (as the code has it). The paths that are kept are exactly those of regular files
  named \<open>latest.log\<close> (unless the latest log is skipped) or
  \<open>YYYY-MM-DD-N.log\<close> / \<open>YYYY-MM-DD-N.log.gz\<close> with a date of fixed width and a sequence
  number \<open>N\<close> of at least one digit; every other name is dropped by the filter, which
  writes nothing and does not fail.
\<close>

theorem kept_paths_are_latest_or_dated:
  "(name, gz) \<in> set (list_paths skip entries) \<longleftrightarrow>
     (name, True) \<in> set entries \<and> gz = (extension name = ''.gz'')
     \<and> ((\<not> skip \<and> name = ''latest.log'') \<or> archive_name name)"
proof
  assume "(name, gz) \<in> set (list_paths skip entries)"
  then have e: "(name, True) \<in> set entries" "gz = (extension name = ''.gz'')"
    and k: "\<not> erase_if_pred skip (name, gz)"
    by (auto simp: in_list_paths)
  from k kept_iff_dated [of skip name gz] have "(\<not> skip \<and> name = ''latest.log'') \<or> archive_name name"
    unfolding archive_name_def by (auto split: if_splits)
  with e show "(name, True) \<in> set entries \<and> gz = (extension name = ''.gz'')
     \<and> ((\<not> skip \<and> name = ''latest.log'') \<or> archive_name name)"
    by simp
next
  assume r: "(name, True) \<in> set entries \<and> gz = (extension name = ''.gz'')
     \<and> ((\<not> skip \<and> name = ''latest.log'') \<or> archive_name name)"
  then have e: "(name, True) \<in> set entries" and g: "gz = (extension name = ''.gz'')" by simp_all
  from r consider "\<not> skip \<and> name = ''latest.log''" | "dated_name name ''.log''" | "dated_name name ''.log.gz''"
    unfolding archive_name_def by blast
  then have "(extension name = ''.gz'' \<or> extension name = ''.log'') \<and> \<not> erase_if_pred skip (name, gz)"
  proof cases
    case 1
    then show ?thesis
      using kept_iff_dated [of skip name gz] extension_latest by simp
  next
    case 2
    from dated_name_extension(1) [OF 2] g have "extension name = ''.log''" "\<not> gz" by simp_all
    with 2 show ?thesis using kept_iff_dated [of skip name gz] by simp
  next
    case 3
    from dated_name_extension(2) [OF 3] g have "extension name = ''.gz''" "gz" by simp_all
    with 3 show ?thesis using kept_iff_dated [of skip name gz] by simp
  qed
  with e g show "(name, gz) \<in> set (list_paths skip entries)"
    by (simp add: in_list_paths)
qed

text \<open>The files of a log directory: two archives with a sequence number, one without,
  and the latest log.\<close>

definition log_dir :: "(string \<times> bool) list" where
  "log_dir = [(''2024-01-01.log'', True), (''2024-01-01-1.log'', True),
     (''2024-01-01-12.log.gz'', True), (''latest.log'', True)]"

lemma archive_name_example: "archive_name ''2024-01-01-12.log.gz''"
proof -
  have "dated_name ''2024-01-01-12.log.gz'' ''.log.gz''"
    unfolding dated_name_def
    by (intro exI [of _ "''2024''"] exI [of _ "''01''"] exI [of _ "''12''"]) (simp add: is_digit_def)
  then show ?thesis by (simp add: archive_name_def)
qed

theorem kept_paths_are_latest_or_dated_witness:
  "(''2024-01-01-12.log.gz'', True) \<in> set (list_paths False log_dir)
   \<and> archive_name ''2024-01-01-12.log.gz''"
proof -
  have "(''2024-01-01-12.log.gz'', True) \<in> set log_dir" by (simp add: log_dir_def)
  moreover have "True = (extension ''2024-01-01-12.log.gz'' = ''.gz'')" by (simp add: extension_def)
  ultimately show ?thesis
    using kept_paths_are_latest_or_dated [of "''2024-01-01-12.log.gz''" True False log_dir]
      archive_name_example by blast
qed

text \<open>C8 as stated fails: a name with a date and no sequence number is not kept.\<close>

theorem name_without_sequence_is_dropped:
  "erase_if_pred False (''2024-01-01.log'', False)
   \<and> (''2024-01-01.log'', False) \<notin> set (list_paths False log_dir)"
proof -
  have "erase_if_pred False (''2024-01-01.log'', False)"
    by (simp add: erase_if_pred_def char_at_def is_digit_def)
  then show ?thesis by (simp add: in_list_paths)
qed

section \<open>A second file of the same day\<close>

lemma clear_entries_warns:
  "clear_entries True f l ks es data = (a, es', d, out) \<Longrightarrow> k \<in> set ks \<Longrightarrow> es ! k = (n, i) \<Longrightarrow>
     uuid i = Some u \<Longrightarrow> join_time i = Some jt \<Longrightarrow> Warning_never_left n f (round_seconds l) \<in> set out"
proof (induction ks arbitrary: es data a es' d out)
  case Nil
  then show ?case by simp
next
  case (Cons k0 ks)
  obtain n0 i0 where e: "es ! k0 = (n0, i0)" by (cases "es ! k0")
  show ?case
  proof (cases "uuid i0 \<noteq> None \<and> join_time i0 \<noteq> None")
    case True
    then obtain u0 j0 where i0: "uuid i0 = Some u0" "join_time i0 = Some j0" by auto
    let ?es1 = "es[k0 := (n0, i0\<lparr>join_time := None\<rparr>)]"
    obtain a1 es1 d1 o1 where r: "clear_entries True f l ks ?es1 (add_session data u0 n0 j0 l) = (a1, es1, d1, o1)"
      by (rule prod_cases4)
    from Cons.prems(1) e i0 r have out: "out = Warning_never_left n0 f (round_seconds l) # o1" by simp
    show ?thesis
    proof (cases "k = k0")
      case True
      with e Cons.prems(3) out show ?thesis by simp
    next
      case False
      with Cons.prems(2) have "k \<in> set ks" by simp
      moreover from False Cons.prems(3) have "?es1 ! k = (n, i)" by simp
      ultimately have "Warning_never_left n f (round_seconds l) \<in> set o1"
        using Cons.IH [OF r] Cons.prems(4,5) by blast
      with out show ?thesis by simp
    qed
  next
    case False
    obtain a1 es1 d1 o1 where r: "clear_entries True f l ks es data = (a1, es1, d1, o1)"
      by (rule prod_cases4)
    from Cons.prems(1) e False r have out: "out = o1"
      by (auto split: option.splits)
    from False Cons.prems(3,4,5) e have "k \<noteq> k0" by auto
    with Cons.prems(2) have "k \<in> set ks" by simp
    from Cons.IH [OF r this Cons.prems(3,4,5)] out show ?thesis by simp
  qed
qed

lemma clear_all_players_warns:
  assumes "clear_all_players True ctx data l = (a, ctx', d, out)"
    and "(n, i) \<in> set (player_info ctx)" "uuid i = Some u" "join_time i = Some jt"
  shows "Warning_never_left n (cur_filename ctx) (round_seconds l) \<in> set out"
proof -
  from assms(2) obtain k where k: "k < length (player_info ctx)" "player_info ctx ! k = (n, i)"
    by (auto simp: in_set_conv_nth)
  then have m: "k \<in> set (iteration_order ctx)" by (simp add: iteration_order_set)
  from assms(1) obtain es' where "clear_entries True (cur_filename ctx) l (iteration_order ctx)
      (player_info ctx) data = (a, es', d, out)"
    by (auto simp: clear_all_players_def split: prod.splits)
  from clear_entries_warns [OF this m k(2) assms(3,4)] show ?thesis .
qed

lemma parse_message_valid_fst:
  "read_valid_line (fst (parse_message t ss pc ctx data out))"
  by (simp add: parse_message_def ret_def split: prod.splits option.splits)

lemma parse_message_valid:
  "parse_message t ss pc ctx data out = (res, ctx', data', out') \<Longrightarrow> read_valid_line res"
  using parse_message_valid_fst [of t ss pc ctx data out] by simp

lemma no_session_after_flush:
  assumes "parse_message t ss pc (ctx\<lparr>player_info := map (\<lambda>(n, i). (n, flushed i)) (player_info ctx)\<rparr>)
      data out = (res, ctx', data', out')"
  shows "sessions_of data' u = sessions_of data u"
proof -
  let ?c = "ctx\<lparr>player_info := map (\<lambda>(n, i). (n, flushed i)) (player_info ctx)\<rparr>"
  from message_new_sessions [OF assms, of u]
  obtain new where n: "sessions_of data' u = sessions_of data u @ new" "\<forall>s \<in> set new. closes_at t ?c u s"
    by blast
  have "\<not> closes_at t ?c u s" for s
    by (auto simp: closes_at_def flushed_def split: if_splits)
  with n(2) have "new = []" by (cases new) auto
  with n(1) show ?thesis by simp
qed

text \<open>What one pass through the body of the loop hands to \<open>parse_line\<close>: the context,
  and the value of \<open>clear_before\<close>, which is set by a new file of the date of the file
  before and stays set until a line has been recognised.\<close>

definition line_ctx :: "bool \<Rightarrow> file_read_ctx_t \<Rightarrow> loop_vars \<Rightarrow> parse_ctx_t" where
  "line_ctx file_is_new read_ctx v =
     (if file_is_new
      then (loop_ctx v)\<lparr>cur_filename := file_name (paths read_ctx ! (path_ind read_ctx - 1)),
                         date_tp := rd_date_tp read_ctx, line := rd_line read_ctx\<rparr>
      else (loop_ctx v)\<lparr>line := rd_line read_ctx\<rparr>)"

definition pending_clear :: "bool \<Rightarrow> file_read_ctx_t \<Rightarrow> loop_vars \<Rightarrow> bool" where
  "pending_clear file_is_new read_ctx v =
     (file_is_new \<and> rd_date_tp read_ctx = loop_last_tp v \<or> loop_clear_before v)"

lemma parse_logs_body_eq:
  "parse_logs_body s file_is_new read_ctx v =
     (case parse_line True s (line_ctx file_is_new read_ctx v) (loop_info v)
             (pending_clear file_is_new read_ctx v) of
        (res, ctx3, info, out) \<Rightarrow>
          \<lparr>loop_ctx = ctx3, loop_info = info,
           loop_clear_before = (\<not> read_valid_line res \<and> pending_clear file_is_new read_ctx v),
           loop_last_tp = (if file_is_new then rd_date_tp read_ctx else loop_last_tp v),
           loop_out = loop_out v @ out,
           loop_read_files = loop_read_files v @
             (if file_is_new \<and> path_ind read_ctx > 1
              then [paths read_ctx ! (path_ind read_ctx - 2)] else [])\<rparr>)"
  by (cases file_is_new)
     (auto simp: parse_logs_body_def line_ctx_def pending_clear_def Let_def split: prod.splits)

text \<open>A line that is not recognised changes the line number only and leaves
  \<open>clear_before\<close> as it is.\<close>

lemma unrecognised_pass:
  assumes "message_of True s = None"
  shows "parse_logs_body s file_is_new read_ctx v =
     \<lparr>loop_ctx = line_ctx file_is_new read_ctx v, loop_info = loop_info v,
      loop_clear_before = pending_clear file_is_new read_ctx v,
      loop_last_tp = (if file_is_new then rd_date_tp read_ctx else loop_last_tp v),
      loop_out = loop_out v,
      loop_read_files = loop_read_files v @
        (if file_is_new \<and> path_ind read_ctx > 1
         then [paths read_ctx ! (path_ind read_ctx - 2)] else [])\<rparr>"
proof -
  from assms have "parse_head (strip_cr s) = None" by (simp add: message_of_def)
  then have "parse_line True s c d b = ret False False c d []" for c d b
    by (simp add: parse_line_def)
  then show ?thesis by (simp add: parse_logs_body_eq ret_def)
qed

text \<open>A recognised line that is handed over with \<open>clear_before\<close> set starts with the
  flush.\<close>

lemma flushing_pass:
  assumes pending: "pending_clear file_is_new read_ctx v"
    and online: "(name, i) \<in> set (player_info (loop_ctx v))" "uuid i = Some u" "join_time i = Some jt"
    and recognised: "message_of True s = Some (off, body)"
  shows "sessions_of (loop_info (parse_logs_body s file_is_new read_ctx v)) u
           = sessions_of (loop_info v) u
             @ flush_sessions (date_tp (line_ctx file_is_new read_ctx v) + off) (visited (loop_ctx v)) u"
    and "Warning_never_left name (cur_filename (line_ctx file_is_new read_ctx v))
           (round_seconds (date_tp (line_ctx file_is_new read_ctx v) + off))
           \<in> set (loop_out (parse_logs_body s file_is_new read_ctx v))"
    and "\<not> loop_clear_before (parse_logs_body s file_is_new read_ctx v)"
proof -
  let ?c = "line_ctx file_is_new read_ctx v"
  let ?t = "date_tp ?c + off"
  have pi: "player_info ?c = player_info (loop_ctx v)" and vis: "visited ?c = visited (loop_ctx v)"
    by (simp_all add: line_ctx_def)
  obtain res ctx3 info out where run: "parse_line True s ?c (loop_info v) True = (res, ctx3, info, out)"
    by (rule prod_cases4)
  have body: "parse_logs_body s file_is_new read_ctx v =
      \<lparr>loop_ctx = ctx3, loop_info = info,
       loop_clear_before = (\<not> read_valid_line res),
       loop_last_tp = (if file_is_new then rd_date_tp read_ctx else loop_last_tp v),
       loop_out = loop_out v @ out,
       loop_read_files = loop_read_files v @
         (if file_is_new \<and> path_ind read_ctx > 1 then [paths read_ctx ! (path_ind read_ctx - 2)] else [])\<rparr>"
    using pending run by (simp add: parse_logs_body_eq)
  obtain pc c1 d1 o1 where flush: "clear_before_flush True ?c (loop_info v) ?t = (pc, c1, d1, o1)"
    by (rule prod_cases4)
  then have cap: "clear_all_players True ?c (loop_info v) ?t = (pc, c1, d1, o1)"
    by (simp add: clear_before_flush_def)
  from parse_line_recognised [OF recognised, of ?c "loop_info v" True] flush run
  obtain ss where pm: "parse_message ?t ss pc c1 d1 o1 = (res, ctx3, info, out)"
    by auto
  have c1: "c1 = ?c\<lparr>player_info := map (\<lambda>(n, i). (n, flushed i)) (player_info ?c)\<rparr>"
    by (rule clear_all_players_result(1) [OF cap])
  have s1: "sessions_of d1 u = sessions_of (loop_info v) u @ flush_sessions ?t (visited (loop_ctx v)) u"
    using clear_all_players_result(2) [OF cap, of u] by (simp add: vis)
  have s2: "sessions_of info u = sessions_of d1 u"
    using pm unfolding c1 by (rule no_session_after_flush)
  have "Warning_never_left name (cur_filename ?c) (round_seconds ?t) \<in> set o1"
    using cap online unfolding pi [symmetric] by (rule clear_all_players_warns)
  moreover have "\<exists>o'. out = o1 @ o' \<and> True"
    by (rule parse_message_effects [OF pm, where Q = "\<lambda>c d o'. True"]) simp_all
  ultimately have w: "Warning_never_left name (cur_filename ?c) (round_seconds ?t) \<in> set (loop_out v @ out)"
    by auto
  have valid: "read_valid_line res"
    using pm by (rule parse_message_valid)
  show "sessions_of (loop_info (parse_logs_body s file_is_new read_ctx v)) u
           = sessions_of (loop_info v) u @ flush_sessions ?t (visited (loop_ctx v)) u"
    unfolding body using s1 s2 by simp
  show "Warning_never_left name (cur_filename ?c) (round_seconds ?t)
           \<in> set (loop_out (parse_logs_body s file_is_new read_ctx v))"
    unfolding body using w by simp
  show "\<not> loop_clear_before (parse_logs_body s file_is_new read_ctx v)"
    unfolding body using valid by simp
qed

text \<open>The loop of \<open>parse_logs\<close> takes a line from \<open>get_next_line\<close> and passes through its
  body with it.\<close>

lemma loop_takes_a_pass:
  assumes "get_next_line skip read_ctx = ((s, file_is_new), read_ctx', out)" "s \<noteq> []"
  shows "parse_logs_loop skip read_ctx v =
     parse_logs_loop skip read_ctx' (parse_logs_body s file_is_new read_ctx' (v\<lparr>loop_out := loop_out v @ out\<rparr>))"
  using assms by (subst parse_logs_loop.simps) simp

text \<open>
  The passes of the loop for the lines of one file, each line with the read context that
  \<open>get_next_line\<close> has left: the first line comes with \<open>file_is_new\<close>, the later ones
  without.
\<close>

fun later_lines :: "(string \<times> file_read_ctx_t) list \<Rightarrow> loop_vars \<Rightarrow> loop_vars" where
  "later_lines [] v = v"
| "later_lines ((s, read_ctx) # ls) v = later_lines ls (parse_logs_body s False read_ctx v)"

fun new_file_lines :: "(string \<times> file_read_ctx_t) list \<Rightarrow> loop_vars \<Rightarrow> loop_vars" where
  "new_file_lines [] v = v"
| "new_file_lines ((s, read_ctx) # ls) v = later_lines ls (parse_logs_body s True read_ctx v)"

lemma later_lines_append: "later_lines (xs @ ys) v = later_lines ys (later_lines xs v)"
  by (induction xs arbitrary: v) auto

text \<open>While the lines of the new file are not recognised, the loop keeps waiting with
  \<open>clear_before\<close> set: only the line number of the context changes.\<close>

definition waiting :: "string \<Rightarrow> time_point \<Rightarrow> loop_vars \<Rightarrow> loop_vars \<Rightarrow> bool" where
  "waiting f d v v' =
     (loop_clear_before v' \<and> loop_info v' = loop_info v \<and> loop_out v' = loop_out v
      \<and> (\<exists>n. loop_ctx v' = (loop_ctx v)\<lparr>cur_filename := f, date_tp := d, line := n\<rparr>))"

lemma waiting_later_lines:
  assumes "waiting f d v v'" "\<forall>(l, c) \<in> set ls. message_of True l = None"
  shows "waiting f d v (later_lines ls v')"
  using assms
proof (induction ls arbitrary: v')
  case Nil
  then show ?case by simp
next
  case (Cons p ls)
  obtain l c where p: "p = (l, c)" by (cases p)
  from Cons.prems(2) p have l: "message_of True l = None" and rest: "\<forall>(l, c) \<in> set ls. message_of True l = None"
    by simp_all
  from Cons.prems(1) obtain n where w: "loop_clear_before v'" "loop_info v' = loop_info v"
    "loop_out v' = loop_out v" "loop_ctx v' = (loop_ctx v)\<lparr>cur_filename := f, date_tp := d, line := n\<rparr>"
    by (auto simp: waiting_def)
  have "waiting f d v (parse_logs_body l False c v')"
    unfolding unrecognised_pass [OF l] waiting_def
    using w by (auto simp: pending_clear_def line_ctx_def)
  from Cons.IH [OF this rest] show ?case by (simp add: p)
qed

lemma flushing_while_waiting:
  assumes wait: "waiting f d v v'"
    and online: "(name, i) \<in> set (player_info (loop_ctx v))" "uuid i = Some u" "join_time i = Some jt"
    and recognised: "message_of True s = Some (off, body)"
  shows "sessions_of (loop_info (parse_logs_body s False read_ctx v')) u
           = sessions_of (loop_info v) u @ flush_sessions (d + off) (visited (loop_ctx v)) u"
    and "Warning_never_left name f (round_seconds (d + off))
           \<in> set (loop_out (parse_logs_body s False read_ctx v'))"
    and "\<not> loop_clear_before (parse_logs_body s False read_ctx v')"
proof -
  from wait obtain n where w: "loop_clear_before v'" "loop_info v' = loop_info v"
    "loop_out v' = loop_out v" "loop_ctx v' = (loop_ctx v)\<lparr>cur_filename := f, date_tp := d, line := n\<rparr>"
    by (auto simp: waiting_def)
  have pending: "pending_clear False read_ctx v'" using w(1) by (simp add: pending_clear_def)
  have online': "(name, i) \<in> set (player_info (loop_ctx v'))" using online(1) w(4) by simp
  have c: "date_tp (line_ctx False read_ctx v') = d" "cur_filename (line_ctx False read_ctx v') = f"
    "visited (loop_ctx v') = visited (loop_ctx v)"
    using w(4) by (simp_all add: line_ctx_def)
  note r = flushing_pass [OF pending online' online(2,3) recognised]
  show "sessions_of (loop_info (parse_logs_body s False read_ctx v')) u
           = sessions_of (loop_info v) u @ flush_sessions (d + off) (visited (loop_ctx v)) u"
    using r(1) c w(2) by simp
  show "Warning_never_left name f (round_seconds (d + off))
           \<in> set (loop_out (parse_logs_body s False read_ctx v'))"
    using r(2) c by simp
  show "\<not> loop_clear_before (parse_logs_body s False read_ctx v')"
    by (rule r(3))
qed

text \<open>
  C2 (as the code has it). The loop of \<open>parse_logs\<close> comes to a new file whose date is
  the date of the file before. Its first lines may be lines that are not recognised; then
  comes a line whose time stamp and tag are recognised. At that line, the first recognised
  one of the file, the flush fires before the line is interpreted: for an entry that is
  online with an identity, the session from its join instant to the instant of the line
  is put on file right after the sessions already there, with the duration the instant of
  the line minus the join instant, whatever its sign, and a warning is written. No day is
  added: a join at 10:00:00 and a first recognised line at 09:00:00 give the duration of
  minus one hour.
\<close>

theorem same_day_file_flushes_first:
  assumes file_lines: "passes = skipped @ [(s, read_ctx)]"
    and same_day: "rd_date_tp (snd (hd passes)) = loop_last_tp v"
    and unrecognised: "\<forall>(l, c) \<in> set skipped. message_of True l = None"
    and recognised: "message_of True s = Some (off, body)"
    and online: "(name, i) \<in> set (player_info (loop_ctx v))" "uuid i = Some u" "join_time i = Some jt"
  shows "sessions_of (loop_info (new_file_lines passes v)) u
           = sessions_of (loop_info v) u
             @ flush_sessions (rd_date_tp (snd (hd passes)) + off) (visited (loop_ctx v)) u
     \<and> (jt, rd_date_tp (snd (hd passes)) + off - jt)
           \<in> set (flush_sessions (rd_date_tp (snd (hd passes)) + off) (visited (loop_ctx v)) u)
     \<and> Warning_never_left name
           (file_name (paths (snd (hd passes)) ! (path_ind (snd (hd passes)) - 1)))
           (round_seconds (rd_date_tp (snd (hd passes)) + off))
           \<in> set (loop_out (new_file_lines passes v))
     \<and> \<not> loop_clear_before (new_file_lines passes v)"
proof -
  let ?c0 = "snd (hd passes)"
  let ?d = "rd_date_tp ?c0"
  let ?f = "file_name (paths ?c0 ! (path_ind ?c0 - 1))"
  have m: "(jt, ?d + off - jt) \<in> set (flush_sessions (?d + off) (visited (loop_ctx v)) u)"
    using online by (intro flush_sessions_member [of name i]) (simp_all add: set_visited)
  have "sessions_of (loop_info (new_file_lines passes v)) u
           = sessions_of (loop_info v) u @ flush_sessions (?d + off) (visited (loop_ctx v)) u
     \<and> Warning_never_left name ?f (round_seconds (?d + off)) \<in> set (loop_out (new_file_lines passes v))
     \<and> \<not> loop_clear_before (new_file_lines passes v)"
  proof (cases skipped)
    case Nil
    with file_lines have p: "passes = [(s, read_ctx)]" by simp
    have pending: "pending_clear True read_ctx v"
      using same_day by (simp add: pending_clear_def p)
    note r = flushing_pass [OF pending online recognised]
    show ?thesis
      using r by (simp add: p line_ctx_def)
  next
    case (Cons p0 sk)
    obtain l0 c0 where p0: "p0 = (l0, c0)" by (cases p0)
    have p: "passes = (l0, c0) # sk @ [(s, read_ctx)]"
      using file_lines Cons p0 by simp
    from unrecognised Cons p0 have l0: "message_of True l0 = None"
      and sk: "\<forall>(l, c) \<in> set sk. message_of True l = None"
      by simp_all
    have same: "rd_date_tp c0 = loop_last_tp v" using same_day by (simp add: p)
    let ?f0 = "file_name (paths c0 ! (path_ind c0 - 1))"
    have "waiting ?f0 (rd_date_tp c0) v (parse_logs_body l0 True c0 v)"
      unfolding unrecognised_pass [OF l0] waiting_def
      using same by (auto simp: pending_clear_def line_ctx_def)
    then have w: "waiting ?f0 (rd_date_tp c0) v (later_lines sk (parse_logs_body l0 True c0 v))"
      using sk by (rule waiting_later_lines)
    have run: "new_file_lines passes v
        = parse_logs_body s False read_ctx (later_lines sk (parse_logs_body l0 True c0 v))"
      unfolding p by (simp add: later_lines_append)
    note r = flushing_while_waiting [OF w online recognised, of read_ctx]
    show ?thesis
      unfolding run using r by (simp add: p)
  qed
  with m show ?thesis by simp
qed

text \<open>The rotation of C2: \<open>2024-01-01-1.log\<close> identifies Bob and has him join at
  10:00:00 without a leave; \<open>2024-01-01-2.log\<close> starts with a line at 09:00:00 that is
  neither a join nor a leave.\<close>

definition first_file :: log_file where
  "first_file = \<lparr>file_name = ''2024-01-01-1.log'', is_gz = False, modification_date = 0,
     file_text = Some (uuid_line @ [CHR 0x0A] @ join_line @ [CHR 0x0A])\<rparr>"

definition start_line :: string where
  "start_line = ''[09:00:00] [Server thread/INFO]: Starting minecraft server version 1.20.1''"

definition second_file :: log_file where
  "second_file = \<lparr>file_name = ''2024-01-01-2.log'', is_gz = False, modification_date = 0,
     file_text = Some (start_line @ [CHR 0x0A])\<rparr>"

lemmas file_defs = parse_logs_def parse_logs_body_def getline_def open_file_def
  date_from_file_name_def days_from_civil_def last_day_of_month_def is_leap_def

lemma parse_logs_rotation:
  "parse_logs False True 0 (\<lambda>keys name. 0) [first_file, second_file] =
     ([bob \<mapsto> ([''Bob''], [(1704103200000000000, - 3600000000000)], - 3600000000000)],
      \<lparr>cur_filename = ''2024-01-01-2.log'', date_tp = 1704067200000000000, line = 1,
        player_info = [(''Bob'', \<lparr>uuid = Some bob, join_time = None\<rparr>)],
        hash_order = (\<lambda>keys name. 0), server_stopped = False\<rparr>,
      [Warning_never_left ''Bob'' ''2024-01-01-2.log'' 1704099600],
      [first_file, second_file])"
  by (simp add: file_defs parse_logs_loop.simps get_next_line.simps first_file_def second_file_def
      start_line_def uuid_line_def join_line_def new_ctx_def bob_def stream_defs line_defs Let_def)

text \<open>C2 as stated fails on it: the session that the flush records has the duration of
  minus one hour, not of 23 hours.\<close>

theorem rotation_records_minus_one_hour:
  "sessions_of (fst (parse_logs False True 0 (\<lambda>keys name. 0) [first_file, second_file])) bob
     = [(1704103200000000000, - 3600000000000)]
   \<and> (1704103200000000000, 82800000000000)
       \<notin> set (sessions_of (fst (parse_logs False True 0 (\<lambda>keys name. 0) [first_file, second_file])) bob)
   \<and> date_from_file_name ''2024-01-01-1.log'' = Some 1704067200000000000
   \<and> 1704103200000000000 = (1704067200000000000 :: time_point) + 10 * 3600 * 1000000000
   \<and> sint (- 3600000000000 :: duration) = - 3600 * 1000000000
   \<and> sint (82800000000000 :: duration) = 23 * 3600 * 1000000000"
  by (simp add: parse_logs_rotation sessions_of_def entry_at_def)
     (simp add: file_defs stream_defs)

text \<open>The same rotation with a second file that starts with a line without a time stamp:
  the flush waits for the line at 09:00:00.\<close>

definition noise_line :: string where
  "noise_line = ''java.lang.RuntimeException: tick took too long''"

definition noisy_second_file :: log_file where
  "noisy_second_file = \<lparr>file_name = ''2024-01-01-2.log'', is_gz = False, modification_date = 0,
     file_text = Some (noise_line @ [CHR 0x0A] @ start_line @ [CHR 0x0A])\<rparr>"

lemma parse_logs_noisy_rotation:
  "parse_logs False True 0 (\<lambda>keys name. 0) [first_file, noisy_second_file] =
     ([bob \<mapsto> ([''Bob''], [(1704103200000000000, - 3600000000000)], - 3600000000000)],
      \<lparr>cur_filename = ''2024-01-01-2.log'', date_tp = 1704067200000000000, line = 2,
        player_info = [(''Bob'', \<lparr>uuid = Some bob, join_time = None\<rparr>)],
        hash_order = (\<lambda>keys name. 0), server_stopped = False\<rparr>,
      [Warning_never_left ''Bob'' ''2024-01-01-2.log'' 1704099600],
      [first_file, noisy_second_file])"
  by (simp add: file_defs parse_logs_loop.simps get_next_line.simps first_file_def noisy_second_file_def
      noise_line_def start_line_def uuid_line_def join_line_def new_ctx_def bob_def stream_defs line_defs Let_def)

definition after_first_file :: loop_vars where
  "after_first_file =
     \<lparr>loop_ctx = \<lparr>cur_filename = ''2024-01-01-1.log'', date_tp = 1704067200000000000, line = 2,
        player_info = [(''Bob'', \<lparr>uuid = Some bob, join_time = Some 1704103200000000000\<rparr>)],
        hash_order = (\<lambda>keys name. 0), server_stopped = False\<rparr>,
      loop_info = Map.empty, loop_clear_before = False, loop_last_tp = 1704067200000000000,
      loop_out = [], loop_read_files = []\<rparr>"

text \<open>The read context of the noisy second file after its first and after its second
  line.\<close>

definition at_noise_line :: file_read_ctx_t where
  "at_noise_line = \<lparr>fin = Some (istream_of (start_line @ [CHR 0x0A])),
     paths = [first_file, noisy_second_file], path_ind = 2,
     rd_date_tp = 1704067200000000000, rd_line = 1\<rparr>"

definition at_start_line :: file_read_ctx_t where
  "at_start_line = \<lparr>fin = Some (istream_of []), paths = [first_file, noisy_second_file], path_ind = 2,
     rd_date_tp = 1704067200000000000, rd_line = 2\<rparr>"

lemma message_of_start_line:
  "message_of True start_line = Some (32400000000000, '' Starting minecraft server version 1.20.1'')"
  by (simp add: message_of_def start_line_def stream_defs)

lemma message_of_noise_line: "message_of True noise_line = None"
  by (simp add: message_of_def noise_line_def stream_defs)

theorem same_day_file_flushes_first_witness:
  "rd_date_tp at_noise_line = loop_last_tp after_first_file
   \<and> message_of True noise_line = None
   \<and> message_of True start_line = Some (32400000000000, '' Starting minecraft server version 1.20.1'')
   \<and> (''Bob'', \<lparr>uuid = Some bob, join_time = Some 1704103200000000000\<rparr>)
        \<in> set (player_info (loop_ctx after_first_file))
   \<and> sessions_of (loop_info (new_file_lines [(noise_line, at_noise_line), (start_line, at_start_line)]
          after_first_file)) bob
        = [(1704103200000000000, - 3600000000000)]
   \<and> Warning_never_left ''Bob'' ''2024-01-01-2.log'' 1704099600
        \<in> set (loop_out (new_file_lines [(noise_line, at_noise_line), (start_line, at_start_line)]
             after_first_file))"
proof -
  have passes: "[(noise_line, at_noise_line), (start_line, at_start_line)]
      = [(noise_line, at_noise_line)] @ [(start_line, at_start_line)]"
    by simp
  have same_day: "rd_date_tp (snd (hd [(noise_line, at_noise_line), (start_line, at_start_line)]))
      = loop_last_tp after_first_file"
    by (simp add: at_noise_line_def after_first_file_def)
  have unrecognised: "\<forall>(l, c) \<in> set [(noise_line, at_noise_line)]. message_of True l = None"
    by (simp add: message_of_noise_line)
  have online: "(''Bob'', \<lparr>uuid = Some bob, join_time = Some 1704103200000000000\<rparr>)
      \<in> set (player_info (loop_ctx after_first_file))"
    by (simp add: after_first_file_def)
  have v: "visited (loop_ctx after_first_file)
      = [(''Bob'', \<lparr>uuid = Some bob, join_time = Some 1704103200000000000\<rparr>)]"
    by (simp add: visited_def iteration_order_def after_first_file_def)
  have e: "sessions_of (loop_info after_first_file) bob = []"
    by (simp add: after_first_file_def sessions_of_def entry_at_def)
  have r: "round_seconds 1704099600000000000 = 1704099600"
    by (simp add: round_seconds_def ticks_per_second_def)
  from same_day_file_flushes_first [OF passes same_day unrecognised message_of_start_line online, of bob
      1704103200000000000]
  have "sessions_of (loop_info (new_file_lines [(noise_line, at_noise_line), (start_line, at_start_line)]
          after_first_file)) bob
        = [(1704103200000000000, - 3600000000000)]
    \<and> Warning_never_left ''Bob'' ''2024-01-01-2.log'' 1704099600
        \<in> set (loop_out (new_file_lines [(noise_line, at_noise_line), (start_line, at_start_line)]
             after_first_file))"
    by (simp add: v e r at_noise_line_def noisy_second_file_def del: new_file_lines.simps)
  with same_day message_of_noise_line message_of_start_line online show ?thesis
    by (simp add: at_noise_line_def after_first_file_def del: new_file_lines.simps)
qed

end
